theory Spec2Isabelle
  imports Complex_Main "HOL-Library.Monad_Syntax"
begin

section \<open>Data model\<close>

text \<open>
  The dialog graph layouter (\<^verbatim>\<open>questionLayouter\<close> and its helpers) computes positions and
  connector edges for a question node, its choice nodes and its branch nodes.
  JavaScript numbers are idealised as rationals, so that \<^verbatim>\<open>ElementInterval.y / 2\<close> is exact.
\<close>

record Boundary =
  width :: rat
  height :: rat
  axisX :: rat

text \<open>
  Modelled from the spec: the class \<^verbatim>\<open>Boundary\<close> (\<^verbatim>\<open>../models/Boundary\<close>) is imported by the
  layouter and not part of the sources. The spec gives it a width, a height and \<^verbatim>\<open>axisX\<close>,
  "the horizontal center line of a node's bounding box"; \<^verbatim>\<open>new Boundary()\<close> is zero-sized.
\<close>

definition newBoundary :: "rat \<Rightarrow> rat \<Rightarrow> Boundary" where
  "newBoundary w h = \<lparr>width = w, height = h, axisX = w / 2\<rparr>"

text \<open>
  \<^verbatim>\<open>QuestionType\<close> is an enumeration the layouter switches on; every value of
  \<^verbatim>\<open>data.type\<close> that is none of the four kinds (also a missing one) is \<open>Unrecognized\<close>.
\<close>

datatype QuestionType = Choice | Confirm | Text | Number | Unrecognized string

text \<open>
  The fields of the opaque \<^verbatim>\<open>data\<close> payload that the layouter reads. A field that is
  \<^verbatim>\<open>undefined\<close> is \<open>None\<close>.
\<close>

record NodeData =
  dataType :: QuestionType
  choiceId :: "string option"
  gotoChoice :: "string option"
  label :: "string option"

record GraphNode =
  nodeId :: string
  offset :: "rat \<times> rat"
  boundary :: Boundary
  data :: NodeData
  hidden :: bool

abbreviation offsetX :: "GraphNode \<Rightarrow> rat" where
  "offsetX n \<equiv> fst (offset n)"

abbreviation offsetY :: "GraphNode \<Rightarrow> rat" where
  "offsetY n \<equiv> snd (offset n)"

datatype EdgeDirection = Up | Down | Left | Right

text \<open>
  An edge; \<open>edgeOptions\<close> is \<open>None\<close> when the object literal has no \<^verbatim>\<open>options\<close>, and
  \<open>Some l\<close> for \<^verbatim>\<open>options: { label: l }\<close>.
\<close>

record Edge =
  edgeId :: string
  direction :: EdgeDirection
  edgeX :: rat
  edgeY :: rat
  edgeLength :: rat
  edgeOptions :: "string option option"

text \<open>
  The node objects are owned by the caller and mutated in place (\<^verbatim>\<open>offset\<close>, \<^verbatim>\<open>hidden\<close>).
  The model passes the three arguments as values and returns them as they are after the
  call; distinct positions of the argument lists are distinct objects.
\<close>

record Nodes =
  questionNode :: "GraphNode option"
  choiceNodes :: "GraphNode list"
  branchNodes :: "GraphNode list"

record NodeMap =
  mapQuestionNode :: "GraphNode option"
  mapChoiceNodes :: "GraphNode list option"
  mapBranchNodes :: "GraphNode list option"

record GraphLayout =
  layoutBoundary :: Boundary
  nodeMap :: NodeMap
  edges :: "Edge list"
  nodes :: "GraphNode list"

text \<open>
  Modelled from the spec: the class \<^verbatim>\<open>GraphLayout\<close> (\<^verbatim>\<open>../models/GraphLayout\<close>) is not part of
  the sources; \<^verbatim>\<open>new GraphLayout()\<close> is the empty layout, "boundary zeroed, no edges/nodes".
\<close>

definition newGraphLayout :: GraphLayout where
  "newGraphLayout =
     \<lparr>layoutBoundary = newBoundary 0 0,
      nodeMap = \<lparr>mapQuestionNode = None, mapChoiceNodes = None, mapBranchNodes = None\<rparr>,
      edges = [], nodes = []\<rparr>"

text \<open>
  The constants of \<^verbatim>\<open>../constants/ElementSizes\<close> are not part of the sources; they are a
  parameter of every function that uses them.
\<close>

record ElementSizes =
  BranchIntervalX :: rat
  BranchIntervalY :: rat
  ElementIntervalY :: rat

text \<open>
  The layouter has no \<^verbatim>\<open>throw\<close> of its own; the only exception its code can meet is the
  \<^verbatim>\<open>TypeError\<close> of reading a property of \<^verbatim>\<open>null\<close> or \<^verbatim>\<open>undefined\<close>. A function that reads a
  node which may be missing returns an \<open>option\<close>, and \<open>None\<close> means that it has no
  result.
\<close>

section \<open>The coordinate composition utility\<close>

text \<open>
  A node object is addressed by its place among the arguments. An index outside its list
  is what JavaScript reads as \<^verbatim>\<open>undefined\<close>.
\<close>

datatype slot = QuestionSlot | ChoiceSlot nat | BranchSlot nat

fun nodeAt :: "Nodes \<Rightarrow> slot \<Rightarrow> GraphNode option" where
  "nodeAt st QuestionSlot = questionNode st"
| "nodeAt st (ChoiceSlot i) = (if i < length (choiceNodes st) then Some (choiceNodes st ! i) else None)"
| "nodeAt st (BranchSlot i) = (if i < length (branchNodes st) then Some (branchNodes st ! i) else None)"

text \<open>
  Modelled from the spec: the class \<^verbatim>\<open>GraphCoord\<close> (\<^verbatim>\<open>../models/GraphCoord\<close>) and the distance
  tags \<^verbatim>\<open>DT\<close> (\<^verbatim>\<open>../models/GraphDistanceUtils\<close>) are not part of the sources. The spec: a
  \<^verbatim>\<open>GraphCoord\<close> "wraps one primary element (a GraphNode or a previously composed GraphCoord)
  together with a list of dependent elements, each attached via a directional alignment
  spec"; computing it "yields a boundary (union bounding box) and assigns concrete offsets
  to every node in its subtree", and \<^verbatim>\<open>moveCoordTo\<close> "translates the whole composed tree to
  its final absolute position".

  A composite is kept as its stored boundary (the layouter writes to
  \<^verbatim>\<open>contentCoord.boundary.height\<close>) and the nodes of its subtree, each with its position
  relative to the composite's top-left corner.
\<close>

record GraphCoord =
  coordBoundary :: Boundary
  members :: "(slot \<times> rat \<times> rat) list"

datatype GraphElement = NodeElement slot | CoordElement GraphCoord

text \<open>
  Modelled from the spec: a composite's boundary is the "union bounding box" of its
  elements, so composing an element reads the element's boundary. The spec describes the
  utility for elements that are nodes or composites. Of an element that is \<^verbatim>\<open>undefined\<close>
  (an index outside its list) it says nothing, neither that the utility fails nor which
  composite it would return; the model gives no result there (\<open>None\<close>). Every statement
  about a layout is made for a call in which the compositions have a result, and nothing
  is concluded from a \<open>None\<close> of the utility.
\<close>

fun elementBoundary :: "Nodes \<Rightarrow> GraphElement \<Rightarrow> Boundary option" where
  "elementBoundary st (NodeElement s) = map_option boundary (nodeAt st s)"
| "elementBoundary st (CoordElement c) = Some (coordBoundary c)"

fun elementMembers :: "GraphElement \<Rightarrow> rat \<Rightarrow> rat \<Rightarrow> (slot \<times> rat \<times> rat) list" where
  "elementMembers (NodeElement s) dx dy = [(s, dx, dy)]"
| "elementMembers (CoordElement c) dx dy = map (\<lambda>(s, mx, my). (s, mx + dx, my + dy)) (members c)"

text \<open>
  Modelled from the spec: \<^verbatim>\<open>new GraphCoord(primary, [[dep, [DT.AxisX, a], [DT.BottomMargin, m]]])\<close>,
  the only shape of the constructor call in the layouter: the dependent is attached below
  the primary, "aligned on the same vertical axis" (shifted by \<open>a\<close>), "separated by" the
  margin \<open>m\<close>. The height is the primary's, the margin and the dependent's; the width
  covers both elements around the common axis.
\<close>

definition newGraphCoord :: "Nodes \<Rightarrow> GraphElement \<Rightarrow> GraphElement \<times> rat \<times> rat \<Rightarrow> GraphCoord option" where
  "newGraphCoord st primary rel =
     (case rel of (dep, a, m) \<Rightarrow>
        do {
          pb \<leftarrow> elementBoundary st primary;
          db \<leftarrow> elementBoundary st dep;
          let left = max (axisX pb) (axisX db - a);
          let right = max (width pb - axisX pb) (a + width db - axisX db);
          Some \<lparr>coordBoundary = \<lparr>width = left + right, height = height pb + m + height db, axisX = left\<rparr>,
                members = elementMembers primary (left - axisX pb) 0
                          @ elementMembers dep (left + a - axisX db) (height pb + m)\<rparr>
        })"

fun rowWidth :: "rat \<Rightarrow> Boundary list \<Rightarrow> rat" where
  "rowWidth interval [] = 0"
| "rowWidth interval [b] = width b"
| "rowWidth interval (b # bs) = width b + interval + rowWidth interval bs"

fun rowHeight :: "Boundary list \<Rightarrow> rat" where
  "rowHeight [] = 0"
| "rowHeight (b # bs) = max (height b) (rowHeight bs)"

fun rowMembers :: "rat \<Rightarrow> rat \<Rightarrow> (GraphElement \<times> Boundary) list \<Rightarrow> (slot \<times> rat \<times> rat) list" where
  "rowMembers interval x [] = []"
| "rowMembers interval x ((e, b) # rest) =
     elementMembers e x 0 @ rowMembers interval (x + width b + interval) rest"

text \<open>
  Modelled from the spec: \<^verbatim>\<open>GraphCoord.topAlignWithInterval(elements, interval, false)\<close>
  composes the elements "into one row, top-aligned, separated horizontally by a fixed
  branch interval, left-to-right". The layouter always passes \<^verbatim>\<open>false\<close> as the third argument.
\<close>

definition topAlignWithInterval :: "Nodes \<Rightarrow> GraphElement list \<Rightarrow> rat \<Rightarrow> GraphCoord option" where
  "topAlignWithInterval st elems interval =
     do {
       bs \<leftarrow> those (map (elementBoundary st) elems);
       Some \<lparr>coordBoundary = newBoundary (rowWidth interval bs) (rowHeight bs),
             members = rowMembers interval 0 (zip elems bs)\<rparr>
     }"

fun setOffset :: "slot \<Rightarrow> rat \<times> rat \<Rightarrow> Nodes \<Rightarrow> Nodes" where
  "setOffset QuestionSlot p st =
     st\<lparr>questionNode := map_option (\<lambda>n. n\<lparr>offset := p\<rparr>) (questionNode st)\<rparr>"
| "setOffset (ChoiceSlot i) p st =
     (if i < length (choiceNodes st)
      then st\<lparr>choiceNodes := (choiceNodes st)[i := (choiceNodes st ! i)\<lparr>offset := p\<rparr>]\<rparr>
      else st)"
| "setOffset (BranchSlot i) p st =
     (if i < length (branchNodes st)
      then st\<lparr>branchNodes := (branchNodes st)[i := (branchNodes st ! i)\<lparr>offset := p\<rparr>]\<rparr>
      else st)"

text \<open>
  Modelled from the spec: \<^verbatim>\<open>coord.moveCoordTo(x, y)\<close> anchors the composite at \<open>(x, y)\<close> and
  gives every node of its subtree its absolute offset.
\<close>

definition moveCoordTo :: "GraphCoord \<Rightarrow> rat \<Rightarrow> rat \<Rightarrow> Nodes \<Rightarrow> Nodes" where
  "moveCoordTo c x y st = fold (\<lambda>(s, dx, dy). setOffset s (x + dx, y + dy)) (members c) st"

section \<open>The layouter\<close>

subsection \<open>Edges of the plain branching layout\<close>

text \<open>
  \<^verbatim>\<open>calculateEdges\<close>: the edge from the question to the baseline, one edge per branch node
  from the baseline to the node, and the baseline when there is more than one branch
  node. Under \<^verbatim>\<open>branchNodes.length > 1\<close> the first and the last branch node exist, so the
  fallback \<^verbatim>\<open>|| new GraphNode()\<close> is never taken.
\<close>

definition calculateEdges :: "ElementSizes \<Rightarrow> Boundary \<Rightarrow> GraphNode \<Rightarrow> GraphNode list \<Rightarrow> Edge list" where
  "calculateEdges sz containerBoundary q branches =
     (let BaselinePositionY = offsetY q + height (boundary q) + BranchIntervalY sz in
      [\<lparr>edgeId = ''edge/'' @ nodeId q @ ''/switch/condition->switch'',
        direction = Down,
        edgeX = axisX containerBoundary,
        edgeY = offsetY q + height (boundary q),
        edgeLength = BranchIntervalY sz,
        edgeOptions = None\<rparr>]
      @ map (\<lambda>x. \<lparr>edgeId = ''edge/'' @ nodeId q @ ''/case/baseline->'' @ nodeId x,
                   direction = Down,
                   edgeX = offsetX x + axisX (boundary x),
                   edgeY = BaselinePositionY,
                   edgeLength = offsetY x - BaselinePositionY,
                   edgeOptions = Some (label (data x))\<rparr>) branches
      @ (if length branches > 1
         then (let firstBranchNode = branches ! 0;
                   lastBranchNode = branches ! (length branches - 1);
                   linePositionX = offsetX firstBranchNode + axisX (boundary firstBranchNode);
                   baseLineLength = offsetX lastBranchNode + axisX (boundary lastBranchNode) - linePositionX
               in [\<lparr>edgeId = ''edge/'' @ nodeId q @ ''/baseline'',
                     direction = Right,
                     edgeX = linePositionX,
                     edgeY = BaselinePositionY,
                     edgeLength = baseLineLength,
                     edgeOptions = None\<rparr>])
         else []))"

subsection \<open>Plain branching layout\<close>

text \<open>
  The loop of \<^verbatim>\<open>questionLayouterBranching\<close>: one composite per index below
  \<^verbatim>\<open>Math.min(choiceNodes.length, branchNodes.length)\<close>, the branch node below the choice node.
\<close>

definition choiceWithBranchNodes :: "ElementSizes \<Rightarrow> Nodes \<Rightarrow> GraphCoord list option" where
  "choiceWithBranchNodes sz st =
     those (map (\<lambda>i. newGraphCoord st (NodeElement (ChoiceSlot i))
                        (NodeElement (BranchSlot i), 0, ElementIntervalY sz))
                [0..<min (length (choiceNodes st)) (length (branchNodes st))])"

text \<open>The composed row of the pairs, before its height is inflated.\<close>

definition branchingContent :: "ElementSizes \<Rightarrow> Nodes \<Rightarrow> GraphCoord option" where
  "branchingContent sz st =
     do {
       pairs \<leftarrow> choiceWithBranchNodes sz st;
       topAlignWithInterval st (map CoordElement pairs) (BranchIntervalX sz)
     }"

text \<open>
  The composite of the question node above the row, after
  \<^verbatim>\<open>contentCoord.boundary.height += 200\<close>.
\<close>

definition branchingRootCoord :: "ElementSizes \<Rightarrow> Nodes \<Rightarrow> GraphCoord option" where
  "branchingRootCoord sz st =
     do {
       contentCoord \<leftarrow> branchingContent sz st;
       let contentCoord = contentCoord\<lparr>coordBoundary :=
             (coordBoundary contentCoord)\<lparr>height := height (coordBoundary contentCoord) + 200\<rparr>\<rparr>;
       newGraphCoord st (NodeElement QuestionSlot) (CoordElement contentCoord, 0, BranchIntervalY sz * 2)
     }"

definition questionLayouterBranching ::
  "ElementSizes \<Rightarrow> GraphNode option \<Rightarrow> GraphNode list \<Rightarrow> GraphNode list \<Rightarrow> (GraphLayout \<times> Nodes) option" where
  "questionLayouterBranching sz qn cs bs =
     (let st = \<lparr>questionNode = qn, choiceNodes = cs, branchNodes = bs\<rparr> in
      if qn = None \<or> length bs = 0 then Some (newGraphLayout, st)
      else do {
        questionCoord \<leftarrow> branchingRootCoord sz st;
        let st' = moveCoordTo questionCoord 0 0 st;
        q \<leftarrow> questionNode st';
        let es = calculateEdges sz (coordBoundary questionCoord) q (branchNodes st');
        Some (\<lparr>layoutBoundary = coordBoundary questionCoord,
               nodeMap = \<lparr>mapQuestionNode = Some q,
                          mapChoiceNodes = Some (choiceNodes st'),
                          mapBranchNodes = Some (branchNodes st')\<rparr>,
               edges = es,
               nodes = []\<rparr>, st')
      })"

subsection \<open>Convergence-aware branching layout\<close>

text \<open>\<^verbatim>\<open>!gotoChoice\<close>: a missing value and the empty string are falsy.\<close>

definition falsy :: "string option \<Rightarrow> bool" where
  "falsy v = (v = None \<or> v = Some [])"

text \<open>\<^verbatim>\<open>Array.prototype.findIndex\<close>; \<open>None\<close> is the result \<^verbatim>\<open>-1\<close>.\<close>

fun findIndex :: "('a \<Rightarrow> bool) \<Rightarrow> 'a list \<Rightarrow> nat option" where
  "findIndex P [] = None"
| "findIndex P (x # xs) = (if P x then Some 0 else map_option Suc (findIndex P xs))"

text \<open>
  The convergence index map, choice index to case index, as the list of its entries in
  the order they are set. Every choice index is set at most once.
\<close>

definition convergenceEntry :: "GraphNode list \<Rightarrow> GraphNode \<Rightarrow> nat \<Rightarrow> (nat \<times> nat) list" where
  "convergenceEntry bs node choiceIndex =
     (let g = gotoChoice (data node) in
      if falsy g \<or> g = choiceId (data node) then []
      else (case findIndex (\<lambda>n. choiceId (data n) = g) bs of
              None \<Rightarrow> []
            | Some caseIndex \<Rightarrow> [(choiceIndex, caseIndex)]))"

definition convergenceMap :: "GraphNode list \<Rightarrow> GraphNode list \<Rightarrow> (nat \<times> nat) list" where
  "convergenceMap cs bs = concat (map (\<lambda>choiceIndex. convergenceEntry bs (cs ! choiceIndex) choiceIndex) [0..<length cs])"

text \<open>
  The array \<^verbatim>\<open>connections\<close> has holes: writing at an index beyond the length extends the
  array, and a hole reads as \<^verbatim>\<open>undefined\<close>.
\<close>

definition getIndex :: "'a option list \<Rightarrow> nat \<Rightarrow> 'a option" where
  "getIndex xs i = (if i < length xs then xs ! i else None)"

definition setIndex :: "'a option list \<Rightarrow> nat \<Rightarrow> 'a \<Rightarrow> 'a option list" where
  "setIndex xs i v =
     (if i < length xs then xs[i := Some v]
      else xs @ replicate (i - length xs) None @ [Some v])"

text \<open>\<^verbatim>\<open>convergenceMap.get(iChoice) ?? iChoice\<close>\<close>

definition caseOf :: "(nat \<times> nat) list \<Rightarrow> nat \<Rightarrow> nat" where
  "caseOf cmap iChoice = (case map_of cmap iChoice of Some iCase \<Rightarrow> iCase | None \<Rightarrow> iChoice)"

definition connectChoice :: "(nat \<times> nat) list \<Rightarrow> (nat \<times> nat list) option list \<Rightarrow> nat \<Rightarrow> (nat \<times> nat list) option list" where
  "connectChoice cmap connections iChoice =
     (let iCase = caseOf cmap iChoice in
      case getIndex connections iCase of
        Some (c, choiceIndices) \<Rightarrow> setIndex connections iCase (c, choiceIndices @ [iChoice])
      | None \<Rightarrow> setIndex connections iCase (iCase, [iChoice]))"

definition buildConnections :: "(nat \<times> nat) list \<Rightarrow> nat \<Rightarrow> (nat \<times> nat list) option list" where
  "buildConnections cmap n = foldl (connectChoice cmap) [] [0..<n]"

text \<open>Some cases are unreachable. Mark as hidden.\<close>

definition markHidden :: "(nat \<times> nat list) option list \<Rightarrow> GraphNode list \<Rightarrow> GraphNode list" where
  "markHidden connections bs =
     map (\<lambda>i. if getIndex connections i = None then (bs ! i)\<lparr>hidden := True\<rparr> else bs ! i) [0..<length bs]"

text \<open>\<^verbatim>\<open>connections.filter(Boolean)\<close>\<close>

definition reachableConnections :: "(nat \<times> nat list) option list \<Rightarrow> (nat \<times> nat list) list" where
  "reachableConnections connections = concat (map (\<lambda>c. case c of None \<Rightarrow> [] | Some g \<Rightarrow> [g]) connections)"

text \<open>
  One composite per reachable connection: the row of its choice nodes, the branch node
  \<^verbatim>\<open>branchNodes[caseIdx]\<close> below it.
\<close>

definition compositedBranchCoords :: "ElementSizes \<Rightarrow> Nodes \<Rightarrow> (nat \<times> nat list) list \<Rightarrow> GraphCoord list option" where
  "compositedBranchCoords sz st reachable =
     those (map (\<lambda>(caseIdx, choiceIndices).
                   do {
                     choicesGroupCoord \<leftarrow> topAlignWithInterval st
                        (map (\<lambda>i. NodeElement (ChoiceSlot i)) choiceIndices) (BranchIntervalX sz);
                     newGraphCoord st (CoordElement choicesGroupCoord)
                        (NodeElement (BranchSlot caseIdx), 0, ElementIntervalY sz)
                   }) reachable)"

definition convergenceContent :: "ElementSizes \<Rightarrow> Nodes \<Rightarrow> (nat \<times> nat list) list \<Rightarrow> GraphCoord option" where
  "convergenceContent sz st reachable =
     do {
       coords \<leftarrow> compositedBranchCoords sz st reachable;
       topAlignWithInterval st (map CoordElement coords) (BranchIntervalX sz)
     }"

definition convergenceRootCoord :: "ElementSizes \<Rightarrow> Nodes \<Rightarrow> (nat \<times> nat list) list \<Rightarrow> GraphCoord option" where
  "convergenceRootCoord sz st reachable =
     do {
       contentCoord \<leftarrow> convergenceContent sz st reachable;
       newGraphCoord st (NodeElement QuestionSlot) (CoordElement contentCoord, 0, BranchIntervalY sz * 2)
     }"

text \<open>The two edges of one choice node.\<close>

definition choiceEdges :: "ElementSizes \<Rightarrow> rat \<Rightarrow> bool \<Rightarrow> GraphNode \<Rightarrow> Edge list" where
  "choiceEdges sz BaselineUnderQuestionPosY converged choice =
     [\<lparr>edgeId = ''edge/'' @ nodeId choice @ ''/baseline->choice'',
       direction = Down,
       edgeX = offsetX choice + axisX (boundary choice),
       edgeY = BaselineUnderQuestionPosY,
       edgeLength = BranchIntervalY sz,
       edgeOptions = None\<rparr>,
      \<lparr>edgeId = ''edge/'' @ nodeId choice @ ''/choice->mid-baseline'',
       direction = Down,
       edgeX = offsetX choice + axisX (boundary choice),
       edgeY = offsetY choice + height (boundary choice),
       edgeLength = (if converged then ElementIntervalY sz / 2 else ElementIntervalY sz),
       edgeOptions = None\<rparr>]"

text \<open>The two edges that merge a converged group.\<close>

definition mergeEdges :: "ElementSizes \<Rightarrow> GraphNode \<Rightarrow> GraphNode \<Rightarrow> GraphNode \<Rightarrow> Edge list" where
  "mergeEdges sz branch cFirst cLast =
     [\<lparr>edgeId = ''edge/'' @ nodeId branch @ ''/mid-baseline->case'',
       direction = Up,
       edgeX = offsetX branch + axisX (boundary branch),
       edgeY = offsetY branch,
       edgeLength = BranchIntervalY sz,
       edgeOptions = None\<rparr>,
      \<lparr>edgeId = ''edge/'' @ nodeId branch @ ''/converged/mid-baseline'',
       direction = Right,
       edgeX = offsetX cFirst + axisX (boundary cFirst),
       edgeY = offsetY cFirst + height (boundary cFirst) + ElementIntervalY sz / 2,
       edgeLength = offsetX cLast + axisX (boundary cLast) - (offsetX cFirst + axisX (boundary cFirst)),
       edgeOptions = None\<rparr>]"

text \<open>
  The body of the loop over the reachable connections. A node is read through \<open>nodeAt\<close>:
  reading a property of \<^verbatim>\<open>undefined\<close> throws.
\<close>

definition groupEdges :: "ElementSizes \<Rightarrow> Nodes \<Rightarrow> rat \<Rightarrow> nat \<times> nat list \<Rightarrow> Edge list option" where
  "groupEdges sz st BaselineUnderQuestionPosY g =
     (case g of (caseIdx, choiceIndices) \<Rightarrow>
        (let converged = length choiceIndices > 1 in
         do {
           choices \<leftarrow> those (map (\<lambda>choiceIdx. nodeAt st (ChoiceSlot choiceIdx)) choiceIndices);
           let perChoice = concat (map (choiceEdges sz BaselineUnderQuestionPosY converged) choices);
           if converged then
             do {
               branch \<leftarrow> nodeAt st (BranchSlot caseIdx);
               cFirst \<leftarrow> nodeAt st (ChoiceSlot (choiceIndices ! 0));
               cLast \<leftarrow> nodeAt st (ChoiceSlot (choiceIndices ! (length choiceIndices - 1)));
               Some (perChoice @ mergeEdges sz branch cFirst cLast)
             }
           else Some perChoice
         }))"

definition convergenceEdges :: "ElementSizes \<Rightarrow> Nodes \<Rightarrow> (nat \<times> nat list) list \<Rightarrow> Edge list option" where
  "convergenceEdges sz st reachable =
     do {
       q \<leftarrow> questionNode st;
       let BaselineUnderQuestionPosY = offsetY q + height (boundary q) + BranchIntervalY sz;
       firstChocie \<leftarrow> nodeAt st (ChoiceSlot 0);
       lastChoice \<leftarrow> nodeAt st (ChoiceSlot (length (choiceNodes st) - 1));
       groups \<leftarrow> those (map (groupEdges sz st BaselineUnderQuestionPosY) reachable);
       Some ([\<lparr>edgeId = ''edge/'' @ nodeId q @ ''/q->baseline'',
               direction = Down,
               edgeX = offsetX q + axisX (boundary q),
               edgeY = offsetY q + height (boundary q),
               edgeLength = BranchIntervalY sz,
               edgeOptions = None\<rparr>,
              \<lparr>edgeId = ''edge/'' @ nodeId q @ ''/baseline'',
               direction = Right,
               edgeX = offsetX firstChocie + axisX (boundary firstChocie),
               edgeY = BaselineUnderQuestionPosY,
               edgeLength = offsetX lastChoice + axisX (boundary lastChoice)
                            - (offsetX firstChocie + axisX (boundary firstChocie)),
               edgeOptions = None\<rparr>]
             @ concat groups)
     }"

definition questionLayouterBranchingWithConvergence ::
  "ElementSizes \<Rightarrow> GraphNode option \<Rightarrow> GraphNode list \<Rightarrow> GraphNode list \<Rightarrow> (GraphLayout \<times> Nodes) option" where
  "questionLayouterBranchingWithConvergence sz qn cs bs =
     (if qn = None \<or> length bs = 0
      then Some (newGraphLayout, \<lparr>questionNode = qn, choiceNodes = cs, branchNodes = bs\<rparr>)
      else
        (let cmap = convergenceMap cs bs in
         if length cmap = 0 then questionLayouterBranching sz qn cs bs
         else
           (let connections = buildConnections cmap (length cs);
                st = \<lparr>questionNode = qn, choiceNodes = cs, branchNodes = markHidden connections bs\<rparr>;
                reachable = reachableConnections connections
            in do {
                 rootCoord \<leftarrow> convergenceRootCoord sz st reachable;
                 let st' = moveCoordTo rootCoord 0 0 st;
                 es \<leftarrow> convergenceEdges sz st' reachable;
                 Some (\<lparr>layoutBoundary = coordBoundary rootCoord,
                        nodeMap = \<lparr>mapQuestionNode = questionNode st',
                                   mapChoiceNodes = Some (choiceNodes st'),
                                   mapBranchNodes = Some (branchNodes st')\<rparr>,
                        edges = es,
                        nodes = []\<rparr>, st')
               })))"

subsection \<open>Non-branching layout and the dispatcher\<close>

definition questionLayouterNonBranching :: "GraphNode \<Rightarrow> GraphLayout" where
  "questionLayouterNonBranching q =
     \<lparr>layoutBoundary = newBoundary 300 286,
      nodeMap = \<lparr>mapQuestionNode = Some q, mapChoiceNodes = None, mapBranchNodes = None\<rparr>,
      edges = [],
      nodes = []\<rparr>"

definition questionLayouter ::
  "ElementSizes \<Rightarrow> GraphNode option \<Rightarrow> GraphNode list \<Rightarrow> GraphNode list \<Rightarrow> (GraphLayout \<times> Nodes) option" where
  "questionLayouter sz qn cs bs =
     (case qn of
        None \<Rightarrow> Some (newGraphLayout, \<lparr>questionNode = qn, choiceNodes = cs, branchNodes = bs\<rparr>)
      | Some q \<Rightarrow>
          (case dataType (data q) of
             Choice \<Rightarrow> questionLayouterBranchingWithConvergence sz qn cs bs
           | Confirm \<Rightarrow> questionLayouterBranching sz qn cs bs
           | _ \<Rightarrow> Some (questionLayouterNonBranching q,
                        \<lparr>questionNode = qn, choiceNodes = cs, branchNodes = bs\<rparr>)))"

section \<open>Notions used in the statements and proofs\<close>

text \<open>The center line of a node: \<^verbatim>\<open>node.offset.x + node.boundary.axisX\<close>.\<close>

abbreviation centerX :: "GraphNode \<Rightarrow> rat" where
  "centerX n \<equiv> offsetX n + axisX (boundary n)"

text \<open>The nodes an element holds, in the order they were composed.\<close>

fun elementSlots :: "GraphElement \<Rightarrow> slot list" where
  "elementSlots (NodeElement s) = [s]"
| "elementSlots (CoordElement c) = map fst (members c)"

text \<open>
  What \<open>moveCoordTo c x y\<close> does to the node at one place: a member of the composite gets
  its absolute offset (the last assignment counts), any other node is left as it is.
\<close>

definition place :: "GraphCoord \<Rightarrow> rat \<Rightarrow> rat \<Rightarrow> slot \<Rightarrow> GraphNode \<Rightarrow> GraphNode" where
  "place c x y s n =
     (case map_of (rev (members c)) s of
        None \<Rightarrow> n
      | Some (dx, dy) \<Rightarrow> n\<lparr>offset := (x + dx, y + dy)\<rparr>)"

text \<open>The places of the choice nodes.\<close>

fun isChoiceSlot :: "slot \<Rightarrow> bool" where
  "isChoiceSlot (ChoiceSlot i) = True"
| "isChoiceSlot s = False"

text \<open>The members of a composite that satisfy \<open>P\<close> all lie at the height \<open>k\<close>.\<close>

definition membersAt :: "(slot \<Rightarrow> bool) \<Rightarrow> rat \<Rightarrow> (slot \<times> rat \<times> rat) list \<Rightarrow> bool" where
  "membersAt P k ms \<longleftrightarrow> (\<forall>(s, dx, dy) \<in> set ms. P s \<longrightarrow> dy = k)"

text \<open>
  The choices mapped to the case \<open>c\<close>: the choice indices below \<open>n\<close> whose case index,
  \<^verbatim>\<open>convergenceMap.get(i) ?? i\<close>, is \<open>c\<close>, in increasing order.
\<close>

definition groupOf :: "(nat \<times> nat) list \<Rightarrow> nat \<Rightarrow> nat \<Rightarrow> nat list" where
  "groupOf cmap n c = filter (\<lambda>j. caseOf cmap j = c) [0..<n]"

text \<open>The non-empty groups of the cases below \<open>m\<close>, in case order.\<close>

definition groupsUpTo :: "(nat \<times> nat) list \<Rightarrow> nat \<Rightarrow> nat \<Rightarrow> (nat \<times> nat list) list" where
  "groupsUpTo cmap n m =
     concat (map (\<lambda>c. if groupOf cmap n c = [] then [] else [(c, groupOf cmap n c)]) [0..<m])"

text \<open>The edges of one connection when every node it reads exists.\<close>

definition groupEdgesOf :: "ElementSizes \<Rightarrow> Nodes \<Rightarrow> rat \<Rightarrow> nat \<times> nat list \<Rightarrow> Edge list" where
  "groupEdgesOf sz st base g =
     (case g of (c, js) \<Rightarrow>
        concat (map (\<lambda>j. choiceEdges sz base (length js > 1) (choiceNodes st ! j)) js)
        @ (if length js > 1
           then mergeEdges sz (branchNodes st ! c) (choiceNodes st ! hd js) (choiceNodes st ! last js)
           else []))"

text \<open>Two nodes that are equal but for their offset and their hidden flag.\<close>

definition sameLayoutInput :: "GraphNode \<Rightarrow> GraphNode \<Rightarrow> bool" where
  "sameLayoutInput n n' \<longleftrightarrow> nodeId n = nodeId n' \<and> boundary n = boundary n' \<and> data n = data n'"

text \<open>Two nodes that are equal but for their hidden flag.\<close>

definition sameVisible :: "GraphNode \<Rightarrow> GraphNode \<Rightarrow> bool" where
  "sameVisible n n' \<longleftrightarrow> sameLayoutInput n n' \<and> offset n = offset n'"

text \<open>Arguments that are node by node equal but for offsets and hidden flags.\<close>

definition sameInputs :: "Nodes \<Rightarrow> Nodes \<Rightarrow> bool" where
  "sameInputs st st' \<longleftrightarrow>
     rel_option sameLayoutInput (questionNode st) (questionNode st')
     \<and> list_all2 sameLayoutInput (choiceNodes st) (choiceNodes st')
     \<and> list_all2 sameLayoutInput (branchNodes st) (branchNodes st')"

text \<open>The boundary and the edges of a result.\<close>

definition outcome :: "(GraphLayout \<times> Nodes) option \<Rightarrow> (Boundary \<times> Edge list) option" where
  "outcome r = map_option (\<lambda>(l, st). (layoutBoundary l, edges l)) r"

text \<open>Readings of a result that the examples check.\<close>

definition edgeCount :: "(GraphLayout \<times> Nodes) option \<Rightarrow> nat option" where
  "edgeCount r = map_option (\<lambda>(l, st). length (edges l)) r"

definition directionCount :: "EdgeDirection \<Rightarrow> (GraphLayout \<times> Nodes) option \<Rightarrow> nat option" where
  "directionCount d r = map_option (\<lambda>(l, st). length (filter (\<lambda>e. direction e = d) (edges l))) r"

definition layoutHeight :: "(GraphLayout \<times> Nodes) option \<Rightarrow> rat option" where
  "layoutHeight r = map_option (\<lambda>(l, st). height (layoutBoundary l)) r"

definition hiddenBranches :: "(GraphLayout \<times> Nodes) option \<Rightarrow> bool list option" where
  "hiddenBranches r = map_option (\<lambda>(l, st). map hidden (branchNodes st)) r"

section \<open>Example inputs\<close>

definition exampleSizes :: ElementSizes where
  "exampleSizes = \<lparr>BranchIntervalX = 50, BranchIntervalY = 25, ElementIntervalY = 50\<rparr>"

definition exampleNode ::
  "string \<Rightarrow> QuestionType \<Rightarrow> rat \<Rightarrow> rat \<Rightarrow> string option \<Rightarrow> string option \<Rightarrow> GraphNode" where
  "exampleNode i t w h c g =
     \<lparr>nodeId = i, offset = (0, 0), boundary = newBoundary w h,
      data = \<lparr>dataType = t, choiceId = c, gotoChoice = g, label = None\<rparr>, hidden = False\<rparr>"

definition confirmQuestion :: GraphNode where
  "confirmQuestion = exampleNode ''q'' Confirm 200 100 None None"

definition choiceQuestion :: GraphNode where
  "choiceQuestion = exampleNode ''q'' Choice 200 100 None None"

definition textQuestion :: GraphNode where
  "textQuestion = exampleNode ''q'' Text 200 100 None None"

definition threeChoices :: "GraphNode list" where
  "threeChoices =
     [exampleNode ''a'' Text 100 40 (Some ''a'') None,
      exampleNode ''b'' Text 100 40 (Some ''b'') (Some ''b''),
      exampleNode ''c'' Text 100 40 (Some ''c'') (Some ''nowhere'')]"

definition threeBranches :: "GraphNode list" where
  "threeBranches =
     [exampleNode ''x'' Text 120 60 (Some ''a'') None,
      exampleNode ''y'' Text 120 60 (Some ''b'') None,
      exampleNode ''z'' Text 120 60 (Some ''c'') None]"

definition convergingChoices :: "GraphNode list" where
  "convergingChoices =
     [exampleNode ''a'' Text 100 40 (Some ''a'') (Some ''c''),
      exampleNode ''b'' Text 100 40 (Some ''b'') None,
      exampleNode ''c'' Text 100 40 (Some ''c'') None]"

definition markedBranches :: "GraphNode list" where
  "markedBranches =
     [exampleNode ''x'' Text 120 60 (Some ''a'') None,
      (exampleNode ''y'' Text 120 60 (Some ''b'') None)\<lparr>hidden := True\<rparr>,
      exampleNode ''z'' Text 120 60 (Some ''c'') None]"

definition oneBranch :: "GraphNode list" where
  "oneBranch = [exampleNode ''x'' Text 120 60 (Some ''a'') None]"

definition oneChoice :: "GraphNode list" where
  "oneChoice = [exampleNode ''a'' Text 100 40 (Some ''a'') None]"

definition twoBranches :: "GraphNode list" where
  "twoBranches =
     [exampleNode ''x'' Text 120 60 (Some ''a'') None,
      exampleNode ''y'' Text 120 60 (Some ''b'') None]"

definition twoBranchesMoved :: "GraphNode list" where
  "twoBranchesMoved =
     [exampleNode ''x'' Text 120 60 (Some ''a'') None,
      (exampleNode ''y'' Text 120 60 (Some ''b'') None)\<lparr>offset := (7, 9)\<rparr>]"

section \<open>Properties\<close>

subsection \<open>Auxiliary facts\<close>

lemma findIndex_None: "findIndex P xs = None \<longleftrightarrow> (\<forall>x \<in> set xs. \<not> P x)"
  by (induction xs) auto

lemma concat_map_Nil: "(\<And>x. x \<in> set xs \<Longrightarrow> f x = []) \<Longrightarrow> concat (map f xs) = []"
  by (induction xs) auto

subsection \<open>Dispatch\<close>

text \<open>
  C6: without a question node the layouter returns the empty layout (zero-sized boundary,
  no edges, no nodes); with a question node of type confirm or choice and no branch nodes
  it returns the empty layout as well. Nothing is thrown and no node is changed.
\<close>

theorem questionLayouter_empty:
  "questionLayouter sz None cs bs
     = Some (newGraphLayout, \<lparr>questionNode = None, choiceNodes = cs, branchNodes = bs\<rparr>)
   \<and> (dataType (data q) = Choice \<or> dataType (data q) = Confirm \<longrightarrow>
        questionLayouter sz (Some q) cs []
          = Some (newGraphLayout, \<lparr>questionNode = Some q, choiceNodes = cs, branchNodes = []\<rparr>))
   \<and> layoutBoundary newGraphLayout = \<lparr>width = 0, height = 0, axisX = 0\<rparr>
   \<and> edges newGraphLayout = [] \<and> nodes newGraphLayout = []"
  by (auto simp: questionLayouter_def questionLayouterBranchingWithConvergence_def
      questionLayouterBranching_def newGraphLayout_def newBoundary_def)

theorem questionLayouter_empty_witness:
  "questionLayouter exampleSizes None threeChoices threeBranches
     = Some (newGraphLayout,
             \<lparr>questionNode = None, choiceNodes = threeChoices, branchNodes = threeBranches\<rparr>)
   \<and> questionLayouter exampleSizes (Some confirmQuestion) threeChoices []
     = Some (newGraphLayout,
             \<lparr>questionNode = Some confirmQuestion, choiceNodes = threeChoices, branchNodes = []\<rparr>)
   \<and> questionLayouter exampleSizes (Some choiceQuestion) threeChoices []
     = Some (newGraphLayout,
             \<lparr>questionNode = Some choiceQuestion, choiceNodes = threeChoices, branchNodes = []\<rparr>)"
  using questionLayouter_empty [of exampleSizes threeChoices threeBranches confirmQuestion]
    questionLayouter_empty [of exampleSizes threeChoices threeBranches choiceQuestion]
  by (simp add: confirmQuestion_def choiceQuestion_def exampleNode_def)

text \<open>
  C7: for a question of type text or number, or of an unrecognized type, the boundary is
  300 by 286, there are no edges, the node map holds the question node only, and every
  node is as it was, whatever the choice and branch nodes are.
\<close>

theorem questionLayouter_nonbranching:
  assumes "dataType (data q) \<noteq> Choice" and "dataType (data q) \<noteq> Confirm"
  shows "questionLayouter sz (Some q) cs bs
     = Some (\<lparr>layoutBoundary = newBoundary 300 286,
              nodeMap = \<lparr>mapQuestionNode = Some q, mapChoiceNodes = None, mapBranchNodes = None\<rparr>,
              edges = [], nodes = []\<rparr>,
             \<lparr>questionNode = Some q, choiceNodes = cs, branchNodes = bs\<rparr>)
   \<and> width (newBoundary 300 286) = 300 \<and> height (newBoundary 300 286) = 286"
  using assms
  by (cases "dataType (data q)")
     (simp_all add: questionLayouter_def questionLayouterNonBranching_def newBoundary_def)

theorem questionLayouter_nonbranching_witness:
  "questionLayouter exampleSizes (Some textQuestion) threeChoices threeBranches
     = Some (\<lparr>layoutBoundary = newBoundary 300 286,
              nodeMap = \<lparr>mapQuestionNode = Some textQuestion, mapChoiceNodes = None,
                         mapBranchNodes = None\<rparr>,
              edges = [], nodes = []\<rparr>,
             \<lparr>questionNode = Some textQuestion, choiceNodes = threeChoices,
              branchNodes = threeBranches\<rparr>)"
  using questionLayouter_nonbranching [of textQuestion exampleSizes threeChoices threeBranches]
  by (simp add: textQuestion_def exampleNode_def)

subsection \<open>A choice question without redirection\<close>

text \<open>
  C1: for a question of type choice in which every choice has no \<^verbatim>\<open>gotoChoice\<close>, or one
  equal to its own \<^verbatim>\<open>choiceId\<close>, or one that is the \<^verbatim>\<open>choiceId\<close> of no branch node, the
  layouter returns what the plain branching layout returns on the same arguments: the
  same layout (boundary, edges, node map) and the same nodes afterwards.
\<close>

theorem choice_without_redirect_is_plain:
  assumes "dataType (data q) = Choice"
    and "\<forall>c \<in> set cs. falsy (gotoChoice (data c))
            \<or> gotoChoice (data c) = choiceId (data c)
            \<or> (\<forall>b \<in> set bs. choiceId (data b) \<noteq> gotoChoice (data c))"
  shows "questionLayouter sz (Some q) cs bs = questionLayouterBranching sz (Some q) cs bs"
proof -
  have "convergenceEntry bs (cs ! i) i = []" if "i < length cs" for i
  proof -
    from that have "cs ! i \<in> set cs" by simp
    with assms(2) have "falsy (gotoChoice (data (cs ! i)))
            \<or> gotoChoice (data (cs ! i)) = choiceId (data (cs ! i))
            \<or> findIndex (\<lambda>n. choiceId (data n) = gotoChoice (data (cs ! i))) bs = None"
      unfolding findIndex_None by blast
    then show ?thesis
      by (auto simp: convergenceEntry_def Let_def)
  qed
  then have "convergenceMap cs bs = []"
    unfolding convergenceMap_def by (intro concat_map_Nil) auto
  then show ?thesis
    using assms(1)
    by (simp add: questionLayouter_def questionLayouterBranchingWithConvergence_def
        questionLayouterBranching_def)
qed

text \<open>
  A choice without \<^verbatim>\<open>gotoChoice\<close>, one that names itself and one that names no branch: the
  layout is the plain one, with its five edges.
\<close>

theorem choice_without_redirect_is_plain_witness:
  "questionLayouter exampleSizes (Some choiceQuestion) threeChoices threeBranches
     = questionLayouterBranching exampleSizes (Some choiceQuestion) threeChoices threeBranches
   \<and> edgeCount (questionLayouterBranching exampleSizes (Some choiceQuestion) threeChoices threeBranches)
     = Some 5"
proof -
  have "edgeCount (questionLayouterBranching exampleSizes (Some choiceQuestion) threeChoices threeBranches)
     = Some 5"
    by code_simp
  then show ?thesis
    using choice_without_redirect_is_plain
            [of choiceQuestion threeChoices threeBranches exampleSizes]
    by (simp add: choiceQuestion_def threeChoices_def threeBranches_def exampleNode_def falsy_def)
qed

subsection \<open>Facts about the coordinate composition utility\<close>

lemma those_map_Some:
  "(\<And>x. x \<in> set xs \<Longrightarrow> f x = Some (g x)) \<Longrightarrow> those (map f xs) = Some (map g xs)"
  by (induction xs) auto

lemma those_Some_map: "those xs = Some ys \<Longrightarrow> xs = map Some ys"
  by (induction xs arbitrary: ys) (auto split: option.splits)

lemma those_Some_length: "those xs = Some ys \<Longrightarrow> length ys = length xs"
  by (drule those_Some_map) simp

lemma map_fst_elementMembers: "map fst (elementMembers e dx dy) = elementSlots e"
  by (cases e) (auto simp: case_prod_unfold)

lemma newGraphCoord_slots:
  "newGraphCoord st p (d, a, m) = Some c \<Longrightarrow> map fst (members c) = elementSlots p @ elementSlots d"
  by (auto simp: newGraphCoord_def Let_def map_fst_elementMembers split: Option.bind_splits)

lemma rowMembers_slots:
  "length es = length bs \<Longrightarrow> map fst (rowMembers i x (zip es bs)) = concat (map elementSlots es)"
  by (induction es bs arbitrary: x rule: list_induct2) (auto simp: map_fst_elementMembers)

lemma topAlignWithInterval_slots:
  "topAlignWithInterval st es i = Some c \<Longrightarrow> map fst (members c) = concat (map elementSlots es)"
  by (auto simp: topAlignWithInterval_def rowMembers_slots dest!: those_Some_length split: Option.bind_splits)

lemma nodeAt_setOffset:
  "nodeAt (setOffset s p st) s' =
     (if s' = s then map_option (\<lambda>n. n\<lparr>offset := p\<rparr>) (nodeAt st s) else nodeAt st s')"
  by (cases s; cases s') auto

lemma length_setOffset [simp]:
  "length (choiceNodes (setOffset s p st)) = length (choiceNodes st)"
  "length (branchNodes (setOffset s p st)) = length (branchNodes st)"
  by (cases s; simp)+

lemma length_fold_setOffset:
  "length (choiceNodes (fold (\<lambda>(s, dx, dy). setOffset s (x + dx, y + dy)) ms st)) = length (choiceNodes st)
   \<and> length (branchNodes (fold (\<lambda>(s, dx, dy). setOffset s (x + dx, y + dy)) ms st)) = length (branchNodes st)"
  by (induction ms arbitrary: st) (auto simp: case_prod_unfold)

lemma length_moveCoordTo [simp]:
  "length (choiceNodes (moveCoordTo c x y st)) = length (choiceNodes st)"
  "length (branchNodes (moveCoordTo c x y st)) = length (branchNodes st)"
  unfolding moveCoordTo_def by (simp_all add: length_fold_setOffset)

lemma nodeAt_fold_setOffset:
  "nodeAt (fold (\<lambda>(s, dx, dy). setOffset s (x + dx, y + dy)) ms st) s =
     map_option (\<lambda>n. case map_of (rev ms) s of None \<Rightarrow> n
                      | Some (dx, dy) \<Rightarrow> n\<lparr>offset := (x + dx, y + dy)\<rparr>) (nodeAt st s)"
proof (induction ms rule: rev_induct)
  case Nil
  show ?case by (simp add: option.map_ident)
next
  case (snoc m ms)
  obtain t dx dy where m: "m = (t, dx, dy)" by (cases m)
  show ?case
    using snoc
    by (cases "nodeAt st s"; cases "map_of (rev ms) s")
       (auto simp: m nodeAt_setOffset)
qed

lemma nodeAt_moveCoordTo:
  "nodeAt (moveCoordTo c x y st) s = map_option (place c x y s) (nodeAt st s)"
  unfolding moveCoordTo_def place_def by (rule nodeAt_fold_setOffset)

subsection \<open>The plain branching layout\<close>

lemma those_map_total:
  assumes "\<And>x. x \<in> set xs \<Longrightarrow> f x \<noteq> None"
  shows "\<exists>ys. those (map f xs) = Some ys \<and> length ys = length xs
              \<and> (\<forall>i < length xs. f (xs ! i) = Some (ys ! i))"
proof -
  have "those (map f xs) = Some (map (\<lambda>x. the (f x)) xs)"
    using assms by (intro those_map_Some) auto
  moreover have "\<forall>i < length xs. f (xs ! i) = Some (map (\<lambda>x. the (f x)) xs ! i)"
    using assms by auto
  ultimately show ?thesis by auto
qed

lemma topAlignWithInterval_coords:
  "topAlignWithInterval st (map CoordElement cs) i =
     Some \<lparr>coordBoundary = newBoundary (rowWidth i (map coordBoundary cs)) (rowHeight (map coordBoundary cs)),
           members = rowMembers i 0 (zip (map CoordElement cs) (map coordBoundary cs))\<rparr>"
proof -
  have "those (map (elementBoundary st) (map CoordElement cs)) = Some (map coordBoundary cs)"
    by (induction cs) auto
  then show ?thesis by (simp add: topAlignWithInterval_def)
qed

lemma newGraphCoord_question:
  assumes "questionNode st = Some q"
  shows "\<exists>rootCoord. newGraphCoord st (NodeElement QuestionSlot) (CoordElement c, a, m) = Some rootCoord
     \<and> height (coordBoundary rootCoord) = height (boundary q) + m + height (coordBoundary c)
     \<and> map fst (members rootCoord) = QuestionSlot # map fst (members c)"
  using assms by (simp add: newGraphCoord_def Let_def case_prod_unfold comp_def)

lemma newGraphCoord_pair:
  assumes "i < length (choiceNodes st)" and "i < length (branchNodes st)"
  shows "\<exists>c. newGraphCoord st (NodeElement (ChoiceSlot i)) (NodeElement (BranchSlot i), a, m) = Some c
     \<and> height (coordBoundary c) = height (boundary (choiceNodes st ! i)) + m + height (boundary (branchNodes st ! i))
     \<and> map fst (members c) = [ChoiceSlot i, BranchSlot i]"
  using assms by (simp add: newGraphCoord_def Let_def)

lemma choiceWithBranchNodes_Some:
  "\<exists>pairs. choiceWithBranchNodes sz st = Some pairs
     \<and> length pairs = min (length (choiceNodes st)) (length (branchNodes st))
     \<and> (\<forall>i < length pairs.
           height (coordBoundary (pairs ! i))
             = height (boundary (choiceNodes st ! i)) + ElementIntervalY sz + height (boundary (branchNodes st ! i))
           \<and> map fst (members (pairs ! i)) = [ChoiceSlot i, BranchSlot i])"
proof -
  let ?n = "min (length (choiceNodes st)) (length (branchNodes st))"
  let ?f = "\<lambda>i. newGraphCoord st (NodeElement (ChoiceSlot i)) (NodeElement (BranchSlot i), 0, ElementIntervalY sz)"
  have "\<And>i. i \<in> set [0..<?n] \<Longrightarrow> ?f i \<noteq> None"
    using newGraphCoord_pair [of _ st 0 "ElementIntervalY sz"] by fastforce
  from those_map_total [of "[0..<?n]" ?f, OF this]
  obtain pairs where p: "those (map ?f [0..<?n]) = Some pairs" "length pairs = ?n"
    "\<forall>i < ?n. ?f i = Some (pairs ! i)" by auto
  have "height (coordBoundary (pairs ! i))
             = height (boundary (choiceNodes st ! i)) + ElementIntervalY sz + height (boundary (branchNodes st ! i))
           \<and> map fst (members (pairs ! i)) = [ChoiceSlot i, BranchSlot i]" if "i < ?n" for i
    using newGraphCoord_pair [of i st 0 "ElementIntervalY sz"] p(3) that by auto
  with p show ?thesis by (auto simp: choiceWithBranchNodes_def)
qed

lemma plain_slots:
  assumes "length pairs = n" and "\<forall>i < n. map fst (members (pairs ! i)) = [ChoiceSlot i, BranchSlot i]"
  shows "concat (map elementSlots (map CoordElement pairs))
           = concat (map (\<lambda>i. [ChoiceSlot i, BranchSlot i]) [0..<n])"
proof -
  have "map (\<lambda>c. map fst (members c)) pairs = map (\<lambda>i. [ChoiceSlot i, BranchSlot i]) [0..<n]"
    using assms by (intro nth_equalityI) auto
  then show ?thesis by (simp add: comp_def)
qed

lemma questionLayouterBranching_result:
  fixes q :: GraphNode and cs bs :: "GraphNode list"
  assumes "bs \<noteq> []"
  defines "st \<equiv> \<lparr>questionNode = Some q, choiceNodes = cs, branchNodes = bs\<rparr>"
  shows "\<exists>content rootCoord.
      branchingContent sz st = Some content
    \<and> branchingRootCoord sz st = Some rootCoord
    \<and> height (coordBoundary rootCoord) = height (boundary q) + BranchIntervalY sz * 2 + (height (coordBoundary content) + 200)
    \<and> map fst (members rootCoord)
         = QuestionSlot # concat (map (\<lambda>i. [ChoiceSlot i, BranchSlot i]) [0..<min (length cs) (length bs)])
    \<and> questionLayouterBranching sz (Some q) cs bs
         = Some (\<lparr>layoutBoundary = coordBoundary rootCoord,
                   nodeMap = \<lparr>mapQuestionNode = Some (place rootCoord 0 0 QuestionSlot q),
                              mapChoiceNodes = Some (choiceNodes (moveCoordTo rootCoord 0 0 st)),
                              mapBranchNodes = Some (branchNodes (moveCoordTo rootCoord 0 0 st))\<rparr>,
                   edges = calculateEdges sz (coordBoundary rootCoord) (place rootCoord 0 0 QuestionSlot q)
                             (branchNodes (moveCoordTo rootCoord 0 0 st)),
                   nodes = []\<rparr>, moveCoordTo rootCoord 0 0 st)"
proof -
  obtain pairs where p: "choiceWithBranchNodes sz st = Some pairs"
    "length pairs = min (length cs) (length bs)"
    "\<forall>i < min (length cs) (length bs). map fst (members (pairs ! i)) = [ChoiceSlot i, BranchSlot i]"
    using choiceWithBranchNodes_Some [of sz st] by (auto simp: st_def)
  obtain content where c: "topAlignWithInterval st (map CoordElement pairs) (BranchIntervalX sz) = Some content"
    by (simp add: topAlignWithInterval_coords)
  have bc: "branchingContent sz st = Some content"
    by (simp add: branchingContent_def p(1) c)
  have cs: "map fst (members content) = concat (map (\<lambda>i. [ChoiceSlot i, BranchSlot i]) [0..<min (length cs) (length bs)])"
    using topAlignWithInterval_slots [OF c] plain_slots [OF p(2,3)] by simp
  let ?content = "content\<lparr>coordBoundary := (coordBoundary content)\<lparr>height := height (coordBoundary content) + 200\<rparr>\<rparr>"
  have q: "questionNode st = Some q" by (simp add: st_def)
  obtain rootCoord where r: "newGraphCoord st (NodeElement QuestionSlot) (CoordElement ?content, 0, BranchIntervalY sz * 2) = Some rootCoord"
    "height (coordBoundary rootCoord) = height (boundary q) + BranchIntervalY sz * 2 + height (coordBoundary ?content)"
    "map fst (members rootCoord) = QuestionSlot # map fst (members ?content)"
    using newGraphCoord_question [OF q, of ?content 0 "BranchIntervalY sz * 2"] by auto
  have rc: "branchingRootCoord sz st = Some rootCoord"
    by (simp add: branchingRootCoord_def bc r(1))
  have n: "questionNode (moveCoordTo rootCoord 0 0 st) = Some (place rootCoord 0 0 QuestionSlot q)"
    using nodeAt_moveCoordTo [of rootCoord 0 0 st QuestionSlot] q by simp
  have "questionLayouterBranching sz (Some q) cs bs
         = Some (\<lparr>layoutBoundary = coordBoundary rootCoord,
                   nodeMap = \<lparr>mapQuestionNode = Some (place rootCoord 0 0 QuestionSlot q),
                              mapChoiceNodes = Some (choiceNodes (moveCoordTo rootCoord 0 0 st)),
                              mapBranchNodes = Some (branchNodes (moveCoordTo rootCoord 0 0 st))\<rparr>,
                   edges = calculateEdges sz (coordBoundary rootCoord) (place rootCoord 0 0 QuestionSlot q)
                             (branchNodes (moveCoordTo rootCoord 0 0 st)),
                   nodes = []\<rparr>, moveCoordTo rootCoord 0 0 st)"
    using assms(1) rc n
    by (simp add: questionLayouterBranching_def Let_def st_def [symmetric])
  with bc rc r(2,3) cs show ?thesis by auto
qed

lemma rowHeight_foldr: "rowHeight bs = foldr max (map height bs) 0"
  by (induction bs) auto

lemma branchingContent_height:
  assumes "branchingContent sz st = Some content"
  shows "height (coordBoundary content)
    = foldr max (map (\<lambda>i. height (boundary (choiceNodes st ! i)) + ElementIntervalY sz
                            + height (boundary (branchNodes st ! i)))
                    [0..<min (length (choiceNodes st)) (length (branchNodes st))]) 0"
proof -
  let ?n = "min (length (choiceNodes st)) (length (branchNodes st))"
  obtain pairs where p: "choiceWithBranchNodes sz st = Some pairs" "length pairs = ?n"
    "\<forall>i < length pairs. height (coordBoundary (pairs ! i))
             = height (boundary (choiceNodes st ! i)) + ElementIntervalY sz + height (boundary (branchNodes st ! i))"
    using choiceWithBranchNodes_Some [of sz st] by auto
  have "map height (map coordBoundary pairs)
      = map (\<lambda>i. height (boundary (choiceNodes st ! i)) + ElementIntervalY sz
                            + height (boundary (branchNodes st ! i))) [0..<?n]"
    using p(2,3) by (intro nth_equalityI) auto
  moreover have "height (coordBoundary content) = rowHeight (map coordBoundary pairs)"
    using assms p(1) by (auto simp: branchingContent_def topAlignWithInterval_coords newBoundary_def)
  ultimately show ?thesis by (simp only: rowHeight_foldr)
qed

lemma place_static [simp]:
  "nodeId (place c x y s n) = nodeId n" "boundary (place c x y s n) = boundary n"
  "data (place c x y s n) = data n" "hidden (place c x y s n) = hidden n"
  by (auto simp: place_def split: option.splits)

lemma branchNodes_moveCoordTo:
  "branchNodes (moveCoordTo c x y st) = map (\<lambda>i. place c x y (BranchSlot i) (branchNodes st ! i)) [0..<length (branchNodes st)]"
proof (rule nth_equalityI)
  show "length (branchNodes (moveCoordTo c x y st)) = length (map (\<lambda>i. place c x y (BranchSlot i) (branchNodes st ! i)) [0..<length (branchNodes st)])"
    by simp
next
  fix i assume "i < length (branchNodes (moveCoordTo c x y st))"
  then have i: "i < length (branchNodes st)" by simp
  then show "branchNodes (moveCoordTo c x y st) ! i = map (\<lambda>i. place c x y (BranchSlot i) (branchNodes st ! i)) [0..<length (branchNodes st)] ! i"
    using nodeAt_moveCoordTo [of c x y st "BranchSlot i"] by simp
qed

lemma choiceNodes_moveCoordTo:
  "choiceNodes (moveCoordTo c x y st) = map (\<lambda>i. place c x y (ChoiceSlot i) (choiceNodes st ! i)) [0..<length (choiceNodes st)]"
proof (rule nth_equalityI)
  show "length (choiceNodes (moveCoordTo c x y st)) = length (map (\<lambda>i. place c x y (ChoiceSlot i) (choiceNodes st ! i)) [0..<length (choiceNodes st)])"
    by simp
next
  fix i assume "i < length (choiceNodes (moveCoordTo c x y st))"
  then have i: "i < length (choiceNodes st)" by simp
  then show "choiceNodes (moveCoordTo c x y st) ! i = map (\<lambda>i. place c x y (ChoiceSlot i) (choiceNodes st ! i)) [0..<length (choiceNodes st)] ! i"
    using nodeAt_moveCoordTo [of c x y st "ChoiceSlot i"] by simp
qed

lemma calculateEdges_shape:
  "map direction (calculateEdges sz b q bs)
     = Down # replicate (length bs) Down @ (if length bs > 1 then [Right] else [])"
  "map edgeId (calculateEdges sz b q bs)
     = (''edge/'' @ nodeId q @ ''/switch/condition->switch'')
       # map (\<lambda>x. ''edge/'' @ nodeId q @ ''/case/baseline->'' @ nodeId x) bs
       @ (if length bs > 1 then [''edge/'' @ nodeId q @ ''/baseline''] else [])"
  by (simp_all add: calculateEdges_def Let_def comp_def map_replicate_const)

text \<open>
  C3, as amended: for a question of type confirm with exactly 3 choices and 3 branches the
  layouter returns exactly 5 edges: the edge from the question to the baseline, 3 edges
  from the baseline to the branch nodes, and the baseline (the only edge to the right).
  The boundary height is the question height, twice the branch interval, the height of
  the row of choice-branch pairs and the padding of 200.
\<close>

theorem confirm_three_branches:
  assumes "dataType (data q) = Confirm" and "length cs = 3" and "length bs = 3"
  shows "\<exists>l st' content.
      questionLayouter sz (Some q) cs bs = Some (l, st')
    \<and> branchingContent sz \<lparr>questionNode = Some q, choiceNodes = cs, branchNodes = bs\<rparr> = Some content
    \<and> height (coordBoundary content)
        = max (height (boundary (cs ! 0)) + ElementIntervalY sz + height (boundary (bs ! 0)))
           (max (height (boundary (cs ! 1)) + ElementIntervalY sz + height (boundary (bs ! 1)))
             (max (height (boundary (cs ! 2)) + ElementIntervalY sz + height (boundary (bs ! 2))) 0))
    \<and> height (layoutBoundary l)
        = height (boundary q) + 2 * BranchIntervalY sz + height (coordBoundary content) + 200
    \<and> length (edges l) = 5
    \<and> map direction (edges l) = [Down, Down, Down, Down, Right]
    \<and> map edgeId (edges l)
        = [''edge/'' @ nodeId q @ ''/switch/condition->switch'',
           ''edge/'' @ nodeId q @ ''/case/baseline->'' @ nodeId (bs ! 0),
           ''edge/'' @ nodeId q @ ''/case/baseline->'' @ nodeId (bs ! 1),
           ''edge/'' @ nodeId q @ ''/case/baseline->'' @ nodeId (bs ! 2),
           ''edge/'' @ nodeId q @ ''/baseline'']"
proof -
  let ?st = "\<lparr>questionNode = Some q, choiceNodes = cs, branchNodes = bs\<rparr>"
  have ne: "bs \<noteq> []" using assms(3) by auto
  from questionLayouterBranching_result [OF ne, of sz q cs]
  obtain content rootCoord where r:
    "branchingContent sz ?st = Some content"
    "height (coordBoundary rootCoord) = height (boundary q) + BranchIntervalY sz * 2 + (height (coordBoundary content) + 200)"
    "questionLayouterBranching sz (Some q) cs bs
         = Some (\<lparr>layoutBoundary = coordBoundary rootCoord,
                   nodeMap = \<lparr>mapQuestionNode = Some (place rootCoord 0 0 QuestionSlot q),
                              mapChoiceNodes = Some (choiceNodes (moveCoordTo rootCoord 0 0 ?st)),
                              mapBranchNodes = Some (branchNodes (moveCoordTo rootCoord 0 0 ?st))\<rparr>,
                   edges = calculateEdges sz (coordBoundary rootCoord) (place rootCoord 0 0 QuestionSlot q)
                             (branchNodes (moveCoordTo rootCoord 0 0 ?st)),
                   nodes = []\<rparr>, moveCoordTo rootCoord 0 0 ?st)"
    by auto
  have three: "[0..<3] = [0, 1, 2]" by (simp add: upt_rec)
  have h: "height (coordBoundary content)
        = max (height (boundary (cs ! 0)) + ElementIntervalY sz + height (boundary (bs ! 0)))
           (max (height (boundary (cs ! 1)) + ElementIntervalY sz + height (boundary (bs ! 1)))
             (max (height (boundary (cs ! 2)) + ElementIntervalY sz + height (boundary (bs ! 2))) 0))"
    using branchingContent_height [OF r(1)] assms(2,3) by (simp add: three)
  let ?es = "calculateEdges sz (coordBoundary rootCoord) (place rootCoord 0 0 QuestionSlot q)
                             (branchNodes (moveCoordTo rootCoord 0 0 ?st))"
  have d: "map direction ?es = [Down, Down, Down, Down, Right]"
    by (simp add: calculateEdges_shape assms(3) numeral_3_eq_3)
  have i: "map edgeId ?es = [''edge/'' @ nodeId q @ ''/switch/condition->switch'',
           ''edge/'' @ nodeId q @ ''/case/baseline->'' @ nodeId (bs ! 0),
           ''edge/'' @ nodeId q @ ''/case/baseline->'' @ nodeId (bs ! 1),
           ''edge/'' @ nodeId q @ ''/case/baseline->'' @ nodeId (bs ! 2),
           ''edge/'' @ nodeId q @ ''/baseline'']"
    by (simp add: calculateEdges_shape branchNodes_moveCoordTo assms(3) three)
  have len: "length ?es = 5"
    using arg_cong [OF d, of length] by simp
  have "questionLayouter sz (Some q) cs bs = questionLayouterBranching sz (Some q) cs bs"
    using assms(1) by (simp add: questionLayouter_def)
  with r h d i len show ?thesis by simp
qed

text \<open>Three choices of height 40 over three branches of height 60, under a question of height 100.\<close>

theorem confirm_three_branches_witness:
  "\<exists>l st'. questionLayouter exampleSizes (Some confirmQuestion) threeChoices threeBranches = Some (l, st')
     \<and> length (edges l) = 5 \<and> height (layoutBoundary l) = 500"
  using confirm_three_branches [of confirmQuestion threeChoices threeBranches exampleSizes]
  by (auto simp: confirmQuestion_def threeChoices_def threeBranches_def exampleNode_def exampleSizes_def newBoundary_def)

text \<open>
  C3 as stated: the count of 4 edges fails on three choices and three branches, where the
  layouter returns 5.
\<close>

theorem confirm_three_branches_counterexample:
  "edgeCount (questionLayouter exampleSizes (Some confirmQuestion) threeChoices threeBranches) = Some 5
   \<and> edgeCount (questionLayouter exampleSizes (Some confirmQuestion) threeChoices threeBranches) \<noteq> Some 4"
  by code_simp

subsection \<open>The convergence map and the connections\<close>

lemma getIndex_setIndex:
  "getIndex (setIndex xs i v) j = (if j = i then Some v else getIndex xs j)"
  by (auto simp: getIndex_def setIndex_def nth_append nth_Cons')

lemma groupOf_Suc:
  "groupOf cmap (Suc n) c = groupOf cmap n c @ (if caseOf cmap n = c then [n] else [])"
  by (simp add: groupOf_def)

lemma getIndex_buildConnections:
  "getIndex (buildConnections cmap n) c
     = (if groupOf cmap n c = [] then None else Some (c, groupOf cmap n c))"
proof (induction n arbitrary: c)
  case 0
  show ?case by (simp add: buildConnections_def getIndex_def groupOf_def)
next
  case (Suc n)
  have step: "buildConnections cmap (Suc n) = connectChoice cmap (buildConnections cmap n) n"
    by (simp add: buildConnections_def)
  show ?case
    unfolding step connectChoice_def Let_def
    by (auto simp: Suc getIndex_setIndex groupOf_Suc split: option.splits)
qed

lemma map_getIndex_upt: "map (getIndex xs) [0..<length xs] = xs"
  by (rule nth_equalityI) (auto simp: getIndex_def)

lemma reachableConnections_getIndex:
  "reachableConnections xs
     = concat (map (\<lambda>c. case getIndex xs c of None \<Rightarrow> [] | Some g \<Rightarrow> [g]) [0..<length xs])"
proof -
  have "map (\<lambda>c. case c of None \<Rightarrow> [] | Some g \<Rightarrow> [g]) (map (getIndex xs) [0..<length xs])
      = map (\<lambda>c. case getIndex xs c of None \<Rightarrow> [] | Some g \<Rightarrow> [g]) [0..<length xs]"
    by simp
  then show ?thesis
    unfolding reachableConnections_def map_getIndex_upt by simp
qed

lemma reachable_buildConnections:
  "reachableConnections (buildConnections cmap n)
     = groupsUpTo cmap n (length (buildConnections cmap n))"
  unfolding reachableConnections_getIndex groupsUpTo_def
  by (rule arg_cong [where f = concat]) (simp add: getIndex_buildConnections)

lemma concat_map_upt_cut:
  assumes "\<And>c. a \<le> c \<Longrightarrow> c < b \<Longrightarrow> G c = []" and "a \<le> b"
  shows "concat (map G [0..<b]) = concat (map G [0..<a])"
proof -
  have "[0..<b] = [0..<a] @ [a..<b]"
    using assms(2) upt_add_eq_append [of 0 a "b - a"] by simp
  moreover have "concat (map G [a..<b]) = []"
    using assms(1) by (intro concat_map_Nil) auto
  ultimately show ?thesis by simp
qed

lemma groupOf_empty_beyond:
  "length (buildConnections cmap n) \<le> c \<Longrightarrow> groupOf cmap n c = []"
  using getIndex_buildConnections [of cmap n c] by (auto simp: getIndex_def split: if_splits)

lemma findIndex_Some: "findIndex P xs = Some i \<Longrightarrow> i < length xs \<and> P (xs ! i)"
  by (induction xs arbitrary: i) (auto split: if_splits)

lemma convergenceMap_member:
  assumes "(i, c) \<in> set (convergenceMap cs bs)"
  shows "i < length cs \<and> c < length bs"
  using assms
  by (auto simp: convergenceMap_def convergenceEntry_def Let_def
           split: if_splits option.splits dest: findIndex_Some findIndex_Some [OF sym])

lemma caseOf_convergenceMap:
  "caseOf (convergenceMap cs bs) j = j \<or> caseOf (convergenceMap cs bs) j < length bs"
  by (auto simp: caseOf_def split: option.splits dest!: map_of_SomeD convergenceMap_member)

lemma convergenceMap_nonempty:
  assumes "convergenceMap cs bs \<noteq> []"
  shows "cs \<noteq> [] \<and> bs \<noteq> []"
proof -
  obtain i c where "(i, c) \<in> set (convergenceMap cs bs)"
    using assms by (cases "convergenceMap cs bs") auto
  then show ?thesis using convergenceMap_member by fastforce
qed

lemma set_groupOf: "j \<in> set (groupOf cmap n c) \<longleftrightarrow> j < n \<and> caseOf cmap j = c"
  by (auto simp: groupOf_def)

lemma converged_has_branch:
  assumes "length (groupOf (convergenceMap cs bs) n c) > 1"
  shows "c < length bs"
proof -
  let ?g = "groupOf (convergenceMap cs bs) n c"
  have d: "distinct ?g" by (simp add: groupOf_def)
  obtain a b r where g: "?g = a # b # r"
    using assms by (cases ?g; cases "tl ?g") auto
  with d have "a \<noteq> b" by auto
  moreover have "caseOf (convergenceMap cs bs) a = c" "caseOf (convergenceMap cs bs) b = c"
    using set_groupOf [of _ "convergenceMap cs bs" n c] g by auto
  ultimately show ?thesis
    using caseOf_convergenceMap [of cs bs a] caseOf_convergenceMap [of cs bs b] by auto
qed

lemma set_groupsUpTo:
  "(c, js) \<in> set (groupsUpTo cmap n m) \<longleftrightarrow> c < m \<and> js = groupOf cmap n c \<and> js \<noteq> []"
  by (auto simp: groupsUpTo_def split: if_splits)

lemma set_reachable:
  "(c, js) \<in> set (reachableConnections (buildConnections cmap n))
     \<longleftrightarrow> js = groupOf cmap n c \<and> js \<noteq> []"
  unfolding reachable_buildConnections set_groupsUpTo
  using groupOf_empty_beyond [of cmap n c] by (auto simp: not_le [symmetric])

subsection \<open>The convergence-aware layout\<close>

lemma those_map_SomeD:
  assumes "those (map f xs) = Some ys"
  shows "length ys = length xs \<and> (\<forall>i < length xs. f (xs ! i) = Some (ys ! i))"
proof -
  have m: "map f xs = map Some ys" using assms by (rule those_Some_map)
  then have l: "length ys = length xs" by (metis length_map)
  have "f (xs ! i) = Some (ys ! i)" if "i < length xs" for i
    using arg_cong [OF m, of "\<lambda>zs. zs ! i"] that l by simp
  with l show ?thesis by simp
qed

lemma composited_one:
  assumes "do {
             choicesGroupCoord \<leftarrow> topAlignWithInterval st (map (\<lambda>i. NodeElement (ChoiceSlot i)) js) ix;
             newGraphCoord st (CoordElement choicesGroupCoord) (NodeElement (BranchSlot c), 0, m)
           } = Some coord"
  shows "map fst (members coord) = map ChoiceSlot js @ [BranchSlot c] \<and> c < length (branchNodes st)"
proof -
  from assms obtain g where g: "topAlignWithInterval st (map (\<lambda>i. NodeElement (ChoiceSlot i)) js) ix = Some g"
    and n: "newGraphCoord st (CoordElement g) (NodeElement (BranchSlot c), 0, m) = Some coord"
    by (auto split: Option.bind_splits)
  have "map fst (members g) = map ChoiceSlot js"
    using topAlignWithInterval_slots [OF g] by (simp add: comp_def)
  moreover have "c < length (branchNodes st)"
    using n by (auto simp: newGraphCoord_def split: Option.bind_splits if_splits)
  ultimately show ?thesis using newGraphCoord_slots [OF n] by simp
qed

lemma compositedBranchCoords_slots:
  assumes "compositedBranchCoords sz st reach = Some coords"
  shows "map (\<lambda>c. map fst (members c)) coords = map (\<lambda>(c, js). map ChoiceSlot js @ [BranchSlot c]) reach"
    and "\<forall>(c, js) \<in> set reach. c < length (branchNodes st)"
proof -
  let ?f = "\<lambda>(caseIdx, choiceIndices).
                   do {
                     choicesGroupCoord \<leftarrow> topAlignWithInterval st
                        (map (\<lambda>i. NodeElement (ChoiceSlot i)) choiceIndices) (BranchIntervalX sz);
                     newGraphCoord st (CoordElement choicesGroupCoord)
                        (NodeElement (BranchSlot caseIdx), 0, ElementIntervalY sz)
                   }"
  from assms have t: "those (map ?f reach) = Some coords"
    by (simp add: compositedBranchCoords_def)
  from those_map_SomeD [OF t]
  have l: "length coords = length reach" and e: "\<And>i. i < length reach \<Longrightarrow> ?f (reach ! i) = Some (coords ! i)"
    by auto
  have one: "map fst (members (coords ! i)) = map ChoiceSlot (snd (reach ! i)) @ [BranchSlot (fst (reach ! i))]
      \<and> fst (reach ! i) < length (branchNodes st)" if "i < length reach" for i
    using e [OF that] composited_one [of st "snd (reach ! i)" "BranchIntervalX sz" "fst (reach ! i)" "ElementIntervalY sz" "coords ! i"]
    by (simp add: case_prod_unfold)
  show "map (\<lambda>c. map fst (members c)) coords = map (\<lambda>(c, js). map ChoiceSlot js @ [BranchSlot c]) reach"
    using l one by (intro nth_equalityI) (auto simp: case_prod_unfold)
  show "\<forall>(c, js) \<in> set reach. c < length (branchNodes st)"
    using one by (auto simp: in_set_conv_nth) (metis fst_conv)
qed

lemma markHidden_nth:
  "i < length bs \<Longrightarrow> markHidden connections bs ! i
      = (if getIndex connections i = None then (bs ! i)\<lparr>hidden := True\<rparr> else bs ! i)"
  by (simp add: markHidden_def)

lemma length_markHidden [simp]: "length (markHidden connections bs) = length bs"
  by (simp add: markHidden_def)

lemma convergence_result:
  fixes q :: GraphNode and cs bs :: "GraphNode list" and sz :: ElementSizes
  defines "reach \<equiv> reachableConnections (buildConnections (convergenceMap cs bs) (length cs))"
      and "st \<equiv> \<lparr>questionNode = Some q, choiceNodes = cs,
                   branchNodes = markHidden (buildConnections (convergenceMap cs bs) (length cs)) bs\<rparr>"
  assumes ne: "convergenceMap cs bs \<noteq> []"
      and res: "questionLayouterBranchingWithConvergence sz (Some q) cs bs = Some (l, st')"
  shows "\<exists>content rootCoord es.
        convergenceContent sz st reach = Some content
      \<and> convergenceRootCoord sz st reach = Some rootCoord
      \<and> height (coordBoundary rootCoord)
          = height (boundary q) + BranchIntervalY sz * 2 + height (coordBoundary content)
      \<and> map fst (members rootCoord)
          = QuestionSlot # concat (map (\<lambda>(c, js). map ChoiceSlot js @ [BranchSlot c]) reach)
      \<and> (\<forall>(c, js) \<in> set reach. c < length bs)
      \<and> st' = moveCoordTo rootCoord 0 0 st
      \<and> convergenceEdges sz st' reach = Some es
      \<and> l = \<lparr>layoutBoundary = coordBoundary rootCoord,
               nodeMap = \<lparr>mapQuestionNode = questionNode st',
                          mapChoiceNodes = Some (choiceNodes st'),
                          mapBranchNodes = Some (branchNodes st')\<rparr>,
               edges = es, nodes = []\<rparr>"
proof -
  have bs: "bs \<noteq> []" using convergenceMap_nonempty [OF ne] by simp
  from res ne bs obtain rootCoord es where
      rootCoord: "convergenceRootCoord sz st reach = Some rootCoord"
    and es: "convergenceEdges sz (moveCoordTo rootCoord 0 0 st) reach = Some es"
    and l: "l = \<lparr>layoutBoundary = coordBoundary rootCoord,
               nodeMap = \<lparr>mapQuestionNode = questionNode (moveCoordTo rootCoord 0 0 st),
                          mapChoiceNodes = Some (choiceNodes (moveCoordTo rootCoord 0 0 st)),
                          mapBranchNodes = Some (branchNodes (moveCoordTo rootCoord 0 0 st))\<rparr>,
               edges = es, nodes = []\<rparr>"
    and st': "st' = moveCoordTo rootCoord 0 0 st"
    by (auto simp: questionLayouterBranchingWithConvergence_def Let_def st_def reach_def
             split: Option.bind_splits)
  from rootCoord obtain content where
      content: "convergenceContent sz st reach = Some content"
    and n: "newGraphCoord st (NodeElement QuestionSlot) (CoordElement content, 0, BranchIntervalY sz * 2) = Some rootCoord"
    by (auto simp: convergenceRootCoord_def split: Option.bind_splits)
  from content obtain coords where
      coords: "compositedBranchCoords sz st reach = Some coords"
    and t: "topAlignWithInterval st (map CoordElement coords) (BranchIntervalX sz) = Some content"
    by (auto simp: convergenceContent_def split: Option.bind_splits)
  have q: "questionNode st = Some q" by (simp add: st_def)
  from newGraphCoord_question [OF q, of content 0 "BranchIntervalY sz * 2"] n
  have h: "height (coordBoundary rootCoord) = height (boundary q) + BranchIntervalY sz * 2 + height (coordBoundary content)"
    and s: "map fst (members rootCoord) = QuestionSlot # map fst (members content)"
    by auto
  have "map fst (members content) = concat (map (\<lambda>c. map fst (members c)) coords)"
    using topAlignWithInterval_slots [OF t] by (simp add: comp_def)
  also have "\<dots> = concat (map (\<lambda>(c, js). map ChoiceSlot js @ [BranchSlot c]) reach)"
    using compositedBranchCoords_slots(1) [OF coords] by simp
  finally have s': "map fst (members content) = concat (map (\<lambda>(c, js). map ChoiceSlot js @ [BranchSlot c]) reach)" .
  have b: "\<forall>(c, js) \<in> set reach. c < length bs"
    using compositedBranchCoords_slots(2) [OF coords] by (simp add: st_def)
  show ?thesis
    using content rootCoord h s s' b st' es l by auto
qed

lemma groupOf_empty_iff: "groupOf cmap n c = [] \<longleftrightarrow> (\<forall>j < n. caseOf cmap j \<noteq> c)"
  by (auto simp: groupOf_def filter_empty_conv)

lemma place_member:
  assumes "s \<in> set (map fst (members c))"
  shows "\<exists>dx dy. (s, dx, dy) \<in> set (members c) \<and> offset (place c x y s n) = (x + dx, y + dy)"
proof -
  have "map_of (rev (members c)) s \<noteq> None"
    using assms by (simp add: map_of_eq_None_iff)
  then obtain dx dy where m: "map_of (rev (members c)) s = Some (dx, dy)" by auto
  then have "(s, dx, dy) \<in> set (members c)"
    using map_of_SomeD [OF m] by simp
  with m show ?thesis by (auto simp: place_def)
qed

lemma questionLayouter_choice:
  "dataType (data q) = Choice \<Longrightarrow>
     questionLayouter sz (Some q) cs bs = questionLayouterBranchingWithConvergence sz (Some q) cs bs"
  by (simp add: questionLayouter_def)

text \<open>
  C2: for a question of type choice with a non-empty convergence map, after the layout
  every branch node to which no choice is mapped is hidden, and every branch node to
  which a choice is mapped keeps its \<^verbatim>\<open>hidden\<close> field and is a member of the root composite,
  which gives it its offset.
\<close>

theorem unreachable_branches_hidden:
  fixes q :: GraphNode and cs bs :: "GraphNode list" and sz :: ElementSizes
  defines "cmap \<equiv> convergenceMap cs bs"
  defines "connections \<equiv> buildConnections cmap (length cs)"
  assumes "dataType (data q) = Choice" and "cmap \<noteq> []"
      and "questionLayouter sz (Some q) cs bs = Some (l, st')"
  shows "length (branchNodes st') = length bs
    \<and> mapBranchNodes (nodeMap l) = Some (branchNodes st')
    \<and> (\<forall>i < length bs.
          if \<exists>j < length cs. caseOf cmap j = i
          then hidden (branchNodes st' ! i) = hidden (bs ! i)
             \<and> (\<exists>rootCoord dx dy.
                   convergenceRootCoord sz
                     \<lparr>questionNode = Some q, choiceNodes = cs, branchNodes = markHidden connections bs\<rparr>
                     (reachableConnections connections) = Some rootCoord
                 \<and> layoutBoundary l = coordBoundary rootCoord
                 \<and> (BranchSlot i, dx, dy) \<in> set (members rootCoord)
                 \<and> offset (branchNodes st' ! i) = (dx, dy))
          else hidden (branchNodes st' ! i))"
proof -
  let ?st = "\<lparr>questionNode = Some q, choiceNodes = cs, branchNodes = markHidden connections bs\<rparr>"
  let ?reach = "reachableConnections connections"
  have res: "questionLayouterBranchingWithConvergence sz (Some q) cs bs = Some (l, st')"
    using assms(3,5) by (simp add: questionLayouter_choice)
  from convergence_result [OF assms(4) [unfolded cmap_def] res]
  obtain rootCoord where r: "convergenceRootCoord sz ?st ?reach = Some rootCoord"
    "map fst (members rootCoord) = QuestionSlot # concat (map (\<lambda>(c, js). map ChoiceSlot js @ [BranchSlot c]) ?reach)"
    "st' = moveCoordTo rootCoord 0 0 ?st"
    "layoutBoundary l = coordBoundary rootCoord"
    "mapBranchNodes (nodeMap l) = Some (branchNodes st')"
    unfolding connections_def cmap_def by auto
  have len: "length (branchNodes st') = length bs"
    by (simp add: r(3))
  have nth: "branchNodes st' ! i = place rootCoord 0 0 (BranchSlot i) (markHidden connections bs ! i)"
    if "i < length bs" for i
    using that by (simp add: r(3) branchNodes_moveCoordTo)
  have "if \<exists>j < length cs. caseOf cmap j = i
          then hidden (branchNodes st' ! i) = hidden (bs ! i)
             \<and> (\<exists>rootCoord dx dy.
                   convergenceRootCoord sz ?st ?reach = Some rootCoord
                 \<and> layoutBoundary l = coordBoundary rootCoord
                 \<and> (BranchSlot i, dx, dy) \<in> set (members rootCoord)
                 \<and> offset (branchNodes st' ! i) = (dx, dy))
          else hidden (branchNodes st' ! i)" if i: "i < length bs" for i
  proof (cases "\<exists>j < length cs. caseOf cmap j = i")
    case True
    then have g: "groupOf cmap (length cs) i \<noteq> []"
      by (simp add: groupOf_empty_iff)
    then have h: "hidden (branchNodes st' ! i) = hidden (bs ! i)"
      using i by (simp add: nth markHidden_nth connections_def getIndex_buildConnections)
    have "(i, groupOf cmap (length cs) i) \<in> set ?reach"
      using g by (simp add: connections_def set_reachable)
    then have "BranchSlot i \<in> set (map fst (members rootCoord))"
      unfolding r(2) by force
    from place_member [OF this, of 0 0 "markHidden connections bs ! i"]
    obtain dx dy where "(BranchSlot i, dx, dy) \<in> set (members rootCoord)"
      "offset (branchNodes st' ! i) = (dx, dy)"
      using i by (auto simp: nth)
    with h r(1,4) have "hidden (branchNodes st' ! i) = hidden (bs ! i)
             \<and> (\<exists>rootCoord dx dy.
                   convergenceRootCoord sz ?st ?reach = Some rootCoord
                 \<and> layoutBoundary l = coordBoundary rootCoord
                 \<and> (BranchSlot i, dx, dy) \<in> set (members rootCoord)
                 \<and> offset (branchNodes st' ! i) = (dx, dy))" by blast
    then show ?thesis by (simp only: True if_True)
  next
    case False
    then have "groupOf cmap (length cs) i = []"
      by (simp add: groupOf_empty_iff)
    then have "hidden (branchNodes st' ! i)"
      using i by (simp add: nth markHidden_nth connections_def getIndex_buildConnections)
    then show ?thesis by (simp only: False if_False)
  qed
  with len r(5) show ?thesis by blast
qed

text \<open>
  The first choice redirected to the third branch: the first branch node becomes hidden,
  the second stays hidden as it was, the third stays visible.
\<close>

theorem unreachable_branches_hidden_witness:
  "hiddenBranches (questionLayouter exampleSizes (Some choiceQuestion) convergingChoices markedBranches)
     = Some [True, True, False]"
proof -
  let ?cs = "convergingChoices"
  let ?bs = "markedBranches"
  have c: "dataType (data choiceQuestion) = Choice"
    by (simp add: choiceQuestion_def exampleNode_def)
  have m: "convergenceMap ?cs ?bs = [(0, 2)]"
    by code_simp
  then have ne: "convergenceMap ?cs ?bs \<noteq> []" by simp
  have "questionLayouter exampleSizes (Some choiceQuestion) ?cs ?bs \<noteq> None"
    by code_simp
  then obtain l st' where r: "questionLayouter exampleSizes (Some choiceQuestion) ?cs ?bs = Some (l, st')"
    by auto
  have len: "length ?bs = Suc (Suc (Suc 0))" "length ?cs = Suc (Suc (Suc 0))"
    by (simp_all add: markedBranches_def convergingChoices_def)
  have h: "hidden (?bs ! Suc 0)" "\<not> hidden (?bs ! Suc (Suc 0))"
    by (simp_all add: markedBranches_def exampleNode_def)
  have e0: "\<not> (\<exists>j < length ?cs. caseOf (convergenceMap ?cs ?bs) j = 0)"
    unfolding m len by (simp add: caseOf_def less_Suc_eq)
  have e1: "\<exists>j < length ?cs. caseOf (convergenceMap ?cs ?bs) j = Suc 0"
    unfolding m len by (rule exI [of _ "Suc 0"]) (simp add: caseOf_def)
  have e2: "\<exists>j < length ?cs. caseOf (convergenceMap ?cs ?bs) j = Suc (Suc 0)"
    unfolding m len by (rule exI [of _ "Suc (Suc 0)"]) (simp add: caseOf_def)
  from unreachable_branches_hidden [OF c ne r]
  have L: "length (branchNodes st') = length ?bs"
    and A: "\<And>i. i < length ?bs \<Longrightarrow>
          (if \<exists>j < length ?cs. caseOf (convergenceMap ?cs ?bs) j = i
           then hidden (branchNodes st' ! i) = hidden (?bs ! i)
             \<and> (\<exists>rootCoord dx dy.
                   convergenceRootCoord exampleSizes
                     \<lparr>questionNode = Some choiceQuestion, choiceNodes = ?cs,
                      branchNodes = markHidden (buildConnections (convergenceMap ?cs ?bs) (length ?cs)) ?bs\<rparr>
                     (reachableConnections (buildConnections (convergenceMap ?cs ?bs) (length ?cs))) = Some rootCoord
                 \<and> layoutBoundary l = coordBoundary rootCoord
                 \<and> (BranchSlot i, dx, dy) \<in> set (members rootCoord)
                 \<and> offset (branchNodes st' ! i) = (dx, dy))
           else hidden (branchNodes st' ! i))"
    by blast+
  have h0: "hidden (branchNodes st' ! 0)"
    using A [of 0] e0 by (simp add: len)
  have h1: "hidden (branchNodes st' ! Suc 0)"
    using A [of "Suc 0"] e1 h(1) by (simp add: len)
  have h2: "\<not> hidden (branchNodes st' ! Suc (Suc 0))"
    using A [of "Suc (Suc 0)"] e2 h(2) by (simp add: len)
  have "map hidden (branchNodes st') = [True, True, False]"
    using h0 h1 h2 L by (intro nth_equalityI) (auto simp: less_Suc_eq len)
  then show ?thesis by (simp add: hiddenBranches_def r)
qed

text \<open>
  C10, as amended: for a question of type choice with a non-empty convergence map the
  boundary height is the question height, twice \<^verbatim>\<open>BranchIntervalY\<close> and the height of the
  composed content, with no padding; for a question of type confirm, and for one of type
  choice with an empty map, the layout adds the 200 whenever there is a branch node. With
  no branch node the layout of a confirm or choice question is the empty one, of height 0.
\<close>

theorem padding_only_on_plain_path:
  fixes q :: GraphNode and cs bs :: "GraphNode list" and sz :: ElementSizes
  defines "cmap \<equiv> convergenceMap cs bs"
  defines "connections \<equiv> buildConnections cmap (length cs)"
  shows "(dataType (data q) = Choice \<and> cmap \<noteq> [] \<and> questionLayouter sz (Some q) cs bs = Some (l, st') \<longrightarrow>
            (\<exists>content.
                convergenceContent sz
                  \<lparr>questionNode = Some q, choiceNodes = cs, branchNodes = markHidden connections bs\<rparr>
                  (reachableConnections connections) = Some content
              \<and> height (layoutBoundary l)
                  = height (boundary q) + 2 * BranchIntervalY sz + height (coordBoundary content)))
       \<and> ((dataType (data q) = Confirm \<or> dataType (data q) = Choice \<and> cmap = []) \<and> bs \<noteq> [] \<longrightarrow>
            (\<exists>content l2 st2.
                branchingContent sz \<lparr>questionNode = Some q, choiceNodes = cs, branchNodes = bs\<rparr> = Some content
              \<and> questionLayouter sz (Some q) cs bs = Some (l2, st2)
              \<and> height (layoutBoundary l2)
                  = height (boundary q) + 2 * BranchIntervalY sz + height (coordBoundary content) + 200))
       \<and> ((dataType (data q) = Confirm \<or> dataType (data q) = Choice) \<and> bs = [] \<longrightarrow>
            (\<exists>l2 st2.
                questionLayouter sz (Some q) cs bs = Some (l2, st2)
              \<and> l2 = newGraphLayout
              \<and> height (layoutBoundary l2) = 0))"
proof (intro conjI impI)
  assume a: "dataType (data q) = Choice \<and> cmap \<noteq> [] \<and> questionLayouter sz (Some q) cs bs = Some (l, st')"
  then have res: "questionLayouterBranchingWithConvergence sz (Some q) cs bs = Some (l, st')"
    using questionLayouter_choice [of q sz cs bs] by simp
  from a have ne: "convergenceMap cs bs \<noteq> []" by (simp add: cmap_def)
  from convergence_result [OF ne res]
  show "\<exists>content.
                convergenceContent sz
                  \<lparr>questionNode = Some q, choiceNodes = cs, branchNodes = markHidden connections bs\<rparr>
                  (reachableConnections connections) = Some content
              \<and> height (layoutBoundary l)
                  = height (boundary q) + 2 * BranchIntervalY sz + height (coordBoundary content)"
    unfolding connections_def cmap_def by (auto simp: mult.commute)
next
  assume a: "(dataType (data q) = Confirm \<or> dataType (data q) = Choice \<and> cmap = []) \<and> bs \<noteq> []"
  then have ql: "questionLayouter sz (Some q) cs bs = questionLayouterBranching sz (Some q) cs bs"
    by (auto simp: questionLayouter_def questionLayouterBranchingWithConvergence_def cmap_def)
  from a have ne: "bs \<noteq> []" by simp
  from questionLayouterBranching_result [OF ne, of sz q cs]
  show "\<exists>content l2 st2.
                branchingContent sz \<lparr>questionNode = Some q, choiceNodes = cs, branchNodes = bs\<rparr> = Some content
              \<and> questionLayouter sz (Some q) cs bs = Some (l2, st2)
              \<and> height (layoutBoundary l2)
                  = height (boundary q) + 2 * BranchIntervalY sz + height (coordBoundary content) + 200"
    unfolding ql by (auto simp: mult.commute)
next
  assume a: "(dataType (data q) = Confirm \<or> dataType (data q) = Choice) \<and> bs = []"
  then show "\<exists>l2 st2. questionLayouter sz (Some q) cs bs = Some (l2, st2)
              \<and> l2 = newGraphLayout
              \<and> height (layoutBoundary l2) = 0"
    by (auto simp: questionLayouter_def questionLayouterBranchingWithConvergence_def
        questionLayouterBranching_def newGraphLayout_def newBoundary_def)
qed

text \<open>
  The same content height of 150, without and with the padding, and the empty layout of a
  confirm question without branch nodes.
\<close>

theorem padding_only_on_plain_path_witness:
  "layoutHeight (questionLayouter exampleSizes (Some choiceQuestion) convergingChoices threeBranches) = Some 300
   \<and> layoutHeight (questionLayouter exampleSizes (Some confirmQuestion) threeChoices threeBranches) = Some 500
   \<and> layoutHeight (questionLayouter exampleSizes (Some confirmQuestion) threeChoices []) = Some 0"
proof -
  let ?cs = "convergingChoices"
  let ?bs = "threeBranches"
  let ?conns = "buildConnections (convergenceMap ?cs ?bs) (length ?cs)"
  have c: "dataType (data choiceQuestion) = Choice" "height (boundary choiceQuestion) = 100"
    "dataType (data confirmQuestion) = Confirm" "height (boundary confirmQuestion) = 100"
    by (simp_all add: choiceQuestion_def confirmQuestion_def exampleNode_def newBoundary_def)
  have ne: "convergenceMap ?cs ?bs \<noteq> []" "threeBranches \<noteq> []"
    by code_simp+
  have "questionLayouter exampleSizes (Some choiceQuestion) ?cs ?bs \<noteq> None"
    by code_simp
  then obtain l st' where r: "questionLayouter exampleSizes (Some choiceQuestion) ?cs ?bs = Some (l, st')"
    by auto
  have h1: "map_option (\<lambda>c. height (coordBoundary c))
      (convergenceContent exampleSizes
         \<lparr>questionNode = Some choiceQuestion, choiceNodes = ?cs, branchNodes = markHidden ?conns ?bs\<rparr>
         (reachableConnections ?conns)) = Some 150"
    by code_simp
  have h2: "map_option (\<lambda>c. height (coordBoundary c))
      (branchingContent exampleSizes
         \<lparr>questionNode = Some confirmQuestion, choiceNodes = threeChoices, branchNodes = ?bs\<rparr>) = Some 150"
    by code_simp
  have b: "BranchIntervalY exampleSizes = 25" by (simp add: exampleSizes_def)
  from padding_only_on_plain_path [of choiceQuestion ?cs ?bs exampleSizes l st'] c(1) ne(1) r h1
  have "height (layoutBoundary l) = 300"
    by (auto simp: c(2) b)
  moreover
  from padding_only_on_plain_path [of confirmQuestion threeChoices ?bs exampleSizes l st'] c(3) ne(2) h2
  have "layoutHeight (questionLayouter exampleSizes (Some confirmQuestion) threeChoices threeBranches) = Some 500"
    by (auto simp: c(4) b layoutHeight_def)
  moreover
  from padding_only_on_plain_path [of confirmQuestion threeChoices "[]" exampleSizes l st'] c(3)
  have "layoutHeight (questionLayouter exampleSizes (Some confirmQuestion) threeChoices []) = Some 0"
    by (auto simp: layoutHeight_def)
  ultimately show ?thesis
    by (simp add: layoutHeight_def r)
qed

text \<open>
  A question of type confirm with three choices and no branch node: the layout is the
  empty one, of height 0, where the question height, twice \<^verbatim>\<open>BranchIntervalY\<close>, the
  content height and the padding make 350.
\<close>

theorem confirm_without_branches_counterexample:
  "layoutHeight (questionLayouter exampleSizes (Some confirmQuestion) threeChoices []) = Some 0
   \<and> map_option (\<lambda>content. height (boundary confirmQuestion) + 2 * BranchIntervalY exampleSizes
                             + height (coordBoundary content) + 200)
        (branchingContent exampleSizes
           \<lparr>questionNode = Some confirmQuestion, choiceNodes = threeChoices, branchNodes = []\<rparr>) = Some 350"
  by code_simp

subsection \<open>The edges of the convergence-aware layout\<close>

lemma groupEdges_eq:
  assumes "\<forall>j \<in> set js. j < length (choiceNodes st)" and "js \<noteq> []"
    and "length js > 1 \<longrightarrow> c < length (branchNodes st)"
  shows "groupEdges sz st base (c, js) = Some (groupEdgesOf sz st base (c, js))"
proof -
  have t: "those (map (\<lambda>choiceIdx. nodeAt st (ChoiceSlot choiceIdx)) js)
      = Some (map (\<lambda>j. choiceNodes st ! j) js)"
    using assms(1) by (intro those_map_Some) auto
  have h: "js ! 0 = hd js" "js ! (length js - Suc 0) = last js"
    using assms(2) by (simp_all add: hd_conv_nth last_conv_nth)
  have hl: "nodeAt st (ChoiceSlot (hd js)) = Some (choiceNodes st ! hd js)"
    "nodeAt st (ChoiceSlot (last js)) = Some (choiceNodes st ! last js)"
    using assms(1,2) by auto
  have b: "length js > 1 \<Longrightarrow> nodeAt st (BranchSlot c) = Some (branchNodes st ! c)"
    using assms(3) by simp
  show ?thesis
    using b
    by (simp add: groupEdges_def groupEdgesOf_def t h hl Let_def comp_def del: nodeAt.simps)
qed

lemma convergenceEdges_eq:
  assumes q: "questionNode st = Some q" and ne: "choiceNodes st \<noteq> []"
    and v: "\<forall>(c, js) \<in> set reach. (\<forall>j \<in> set js. j < length (choiceNodes st)) \<and> js \<noteq> []
              \<and> (length js > 1 \<longrightarrow> c < length (branchNodes st))"
  shows "convergenceEdges sz st reach
    = Some ([\<lparr>edgeId = ''edge/'' @ nodeId q @ ''/q->baseline'',
               direction = Down,
               edgeX = offsetX q + axisX (boundary q),
               edgeY = offsetY q + height (boundary q),
               edgeLength = BranchIntervalY sz,
               edgeOptions = None\<rparr>,
              \<lparr>edgeId = ''edge/'' @ nodeId q @ ''/baseline'',
               direction = Right,
               edgeX = offsetX (hd (choiceNodes st)) + axisX (boundary (hd (choiceNodes st))),
               edgeY = offsetY q + height (boundary q) + BranchIntervalY sz,
               edgeLength = offsetX (last (choiceNodes st)) + axisX (boundary (last (choiceNodes st)))
                            - (offsetX (hd (choiceNodes st)) + axisX (boundary (hd (choiceNodes st)))),
               edgeOptions = None\<rparr>]
             @ concat (map (groupEdgesOf sz st (offsetY q + height (boundary q) + BranchIntervalY sz)) reach))"
proof -
  let ?base = "offsetY q + height (boundary q) + BranchIntervalY sz"
  have "those (map (groupEdges sz st ?base) reach) = Some (map (groupEdgesOf sz st ?base) reach)"
  proof (rule those_map_Some)
    fix g assume g: "g \<in> set reach"
    obtain c js where cj: "g = (c, js)" by (cases g)
    with g v show "groupEdges sz st ?base g = Some (groupEdgesOf sz st ?base g)"
      unfolding cj by (intro groupEdges_eq) auto
  qed
  then show ?thesis
    using q ne
    by (simp add: convergenceEdges_def Let_def hd_conv_nth last_conv_nth)
qed

lemma filter_upt_cut:
  assumes "\<And>c. P c \<Longrightarrow> c < a" and "\<And>c. P c \<Longrightarrow> c < b"
  shows "filter P [0..<a] = filter P [0..<b]"
proof -
  have cut: "filter P [0..<n] = filter P [0..<m]" if "m \<le> n" "\<And>c. P c \<Longrightarrow> c < m" for m n
  proof -
    have "[0..<n] = [0..<m] @ [m..<n]"
      using that(1) upt_add_eq_append [of 0 m "n - m"] by simp
    moreover have "filter P [m..<n] = []"
      using that(2) by (auto simp: filter_empty_conv dest!: that(2))
    ultimately show ?thesis by simp
  qed
  show ?thesis
  proof (cases "a \<le> b")
    case True
    then show ?thesis using cut [of a b] assms(1) by simp
  next
    case False
    then show ?thesis using cut [of b a] assms(2) by simp
  qed
qed

lemma concat_map_if_singleton:
  "concat (map (\<lambda>x. if P x then [f x] else []) xs) = map f (filter P xs)"
  by (induction xs) auto

lemma filter_concat_groups:
  "filter P (concat (map E (groupsUpTo cmap n m)))
     = concat (map (\<lambda>c. if groupOf cmap n c = [] then [] else filter P (E (c, groupOf cmap n c))) [0..<m])"
  unfolding groupsUpTo_def
  by (induction m) (auto simp: filter_concat)

lemma filter_groupEdgesOf_Up:
  "filter (\<lambda>e. direction e = Up) (groupEdgesOf sz st base (c, js))
     = (if length js > 1
        then [\<lparr>edgeId = ''edge/'' @ nodeId (branchNodes st ! c) @ ''/mid-baseline->case'',
               direction = Up,
               edgeX = centerX (branchNodes st ! c),
               edgeY = offsetY (branchNodes st ! c),
               edgeLength = BranchIntervalY sz,
               edgeOptions = None\<rparr>]
        else [])"
  by (simp add: groupEdgesOf_def choiceEdges_def mergeEdges_def filter_concat comp_def)

lemma filter_groupEdgesOf_Right:
  "filter (\<lambda>e. direction e = Right) (groupEdgesOf sz st base (c, js))
     = (if length js > 1
        then [\<lparr>edgeId = ''edge/'' @ nodeId (branchNodes st ! c) @ ''/converged/mid-baseline'',
               direction = Right,
               edgeX = centerX (choiceNodes st ! hd js),
               edgeY = offsetY (choiceNodes st ! hd js) + height (boundary (choiceNodes st ! hd js))
                       + ElementIntervalY sz / 2,
               edgeLength = centerX (choiceNodes st ! last js) - centerX (choiceNodes st ! hd js),
               edgeOptions = None\<rparr>]
        else [])"
  by (simp add: groupEdgesOf_def choiceEdges_def mergeEdges_def filter_concat comp_def)

lemma choiceEdges_in_group:
  assumes "j \<in> set js"
  shows "set (choiceEdges sz base (length js > 1) (choiceNodes st ! j)) \<subseteq> set (groupEdgesOf sz st base (c, js))"
  using assms by (auto simp: groupEdgesOf_def)

lemma convergence_slot_member:
  assumes "(c, js) \<in> set reach"
  shows "BranchSlot c \<in> set (QuestionSlot # concat (map (\<lambda>(c, js). map ChoiceSlot js @ [BranchSlot c]) reach))"
    and "\<forall>j \<in> set js. ChoiceSlot j \<in> set (QuestionSlot # concat (map (\<lambda>(c, js). map ChoiceSlot js @ [BranchSlot c]) reach))"
  using assms by force+

lemma questionNode_moveCoordTo:
  "questionNode (moveCoordTo c x y st) = map_option (place c x y QuestionSlot) (questionNode st)"
  using nodeAt_moveCoordTo [of c x y st QuestionSlot] by simp

subsection \<open>Where the choice nodes are placed\<close>

lemma membersAt_append [simp]:
  "membersAt P k (xs @ ys) \<longleftrightarrow> membersAt P k xs \<and> membersAt P k ys"
  by (auto simp: membersAt_def)

lemma membersAt_Nil [simp]: "membersAt P k []"
  by (simp add: membersAt_def)

lemma membersAt_shift:
  "membersAt P k (members c) \<Longrightarrow> membersAt P (k + dy) (elementMembers (CoordElement c) dx dy)"
  by (auto simp: membersAt_def)

lemma membersAt_node: "membersAt P dy (elementMembers (NodeElement s) dx dy)"
  by (simp add: membersAt_def)

lemma membersAt_row:
  assumes "\<forall>(e, b) \<in> set ps. \<forall>x. membersAt P k (elementMembers e x 0)"
  shows "membersAt P k (rowMembers i x ps)"
  using assms by (induction ps arbitrary: x) auto

lemma membersAt_topAlign:
  assumes "topAlignWithInterval st es i = Some c"
    and "\<forall>e \<in> set es. \<forall>x. membersAt P k (elementMembers e x 0)"
  shows "membersAt P k (members c)"
proof -
  from assms(1) obtain bs where "members c = rowMembers i 0 (zip es bs)"
    by (auto simp: topAlignWithInterval_def split: Option.bind_splits)
  moreover have "\<forall>(e, b) \<in> set (zip es bs). \<forall>x. membersAt P k (elementMembers e x 0)"
    using assms(2) by (auto dest: set_zip_leftD)
  ultimately show ?thesis by (simp add: membersAt_row)
qed

lemma newGraphCoord_members:
  assumes "newGraphCoord st p (d, a, m) = Some c"
  shows "\<exists>x1 x2 pb. elementBoundary st p = Some pb
           \<and> members c = elementMembers p x1 0 @ elementMembers d x2 (height pb + m)"
  using assms by (fastforce simp: newGraphCoord_def Let_def split: Option.bind_splits)

lemma membersAt_composited:
  assumes "compositedBranchCoords sz st reach = Some coords" and "c \<in> set coords"
  shows "membersAt isChoiceSlot 0 (members c)"
proof -
  let ?f = "\<lambda>(caseIdx, choiceIndices).
                   do {
                     choicesGroupCoord \<leftarrow> topAlignWithInterval st
                        (map (\<lambda>i. NodeElement (ChoiceSlot i)) choiceIndices) (BranchIntervalX sz);
                     newGraphCoord st (CoordElement choicesGroupCoord)
                        (NodeElement (BranchSlot caseIdx), 0, ElementIntervalY sz)
                   }"
  from assms(1) have t: "those (map ?f reach) = Some coords"
    by (simp add: compositedBranchCoords_def)
  from those_map_SomeD [OF t] assms(2)
  obtain i where i: "i < length reach" "?f (reach ! i) = Some c"
    by (auto simp: in_set_conv_nth)
  obtain ci js where cj: "reach ! i = (ci, js)" by (cases "reach ! i")
  from i(2) obtain g where g: "topAlignWithInterval st (map (\<lambda>i. NodeElement (ChoiceSlot i)) js) (BranchIntervalX sz) = Some g"
    and n: "newGraphCoord st (CoordElement g) (NodeElement (BranchSlot ci), 0, ElementIntervalY sz) = Some c"
    unfolding cj by (auto split: Option.bind_splits)
  have "membersAt isChoiceSlot 0 (members g)"
    using g by (rule membersAt_topAlign) (auto simp: membersAt_def)
  from membersAt_shift [OF this, of 0] have "membersAt isChoiceSlot 0 (elementMembers (CoordElement g) x 0)" for x
    by simp
  moreover have "membersAt isChoiceSlot 0 (elementMembers (NodeElement (BranchSlot ci)) x y)" for x y
    by (simp add: membersAt_def)
  ultimately show ?thesis
    using newGraphCoord_members [OF n] by auto
qed

lemma membersAt_convergenceRoot:
  assumes "convergenceRootCoord sz st reach = Some rootCoord" and "questionNode st = Some q"
  shows "membersAt isChoiceSlot (height (boundary q) + BranchIntervalY sz * 2) (members rootCoord)"
    and "membersAt (\<lambda>s. s = QuestionSlot) 0 (members rootCoord)"
proof -
  from assms(1) obtain content where
      content: "convergenceContent sz st reach = Some content"
    and n: "newGraphCoord st (NodeElement QuestionSlot) (CoordElement content, 0, BranchIntervalY sz * 2) = Some rootCoord"
    by (auto simp: convergenceRootCoord_def split: Option.bind_splits)
  from content obtain coords where
      coords: "compositedBranchCoords sz st reach = Some coords"
    and t: "topAlignWithInterval st (map CoordElement coords) (BranchIntervalX sz) = Some content"
    by (auto simp: convergenceContent_def split: Option.bind_splits)
  have c0: "membersAt isChoiceSlot 0 (members content)"
  proof (rule membersAt_topAlign [OF t], intro ballI allI)
    fix e x assume "e \<in> set (map CoordElement coords)"
    then obtain c where c: "e = CoordElement c" "c \<in> set coords" by auto
    from membersAt_shift [OF membersAt_composited [OF coords c(2)], of 0 x]
    show "membersAt isChoiceSlot 0 (elementMembers e x 0)" by (simp add: c(1))
  qed
  have noq: "QuestionSlot \<notin> set (map fst (members content))"
  proof -
    have "map fst (members content) = concat (map (\<lambda>c. map fst (members c)) coords)"
      using topAlignWithInterval_slots [OF t] by (simp add: comp_def)
    also have "\<dots> = concat (map (\<lambda>(c, js). map ChoiceSlot js @ [BranchSlot c]) reach)"
      using compositedBranchCoords_slots(1) [OF coords] by simp
    finally show ?thesis by auto
  qed
  from newGraphCoord_members [OF n] assms(2)
  obtain x1 x2 where m: "members rootCoord
      = elementMembers (NodeElement QuestionSlot) x1 0
        @ elementMembers (CoordElement content) x2 (height (boundary q) + BranchIntervalY sz * 2)"
    by auto
  show "membersAt isChoiceSlot (height (boundary q) + BranchIntervalY sz * 2) (members rootCoord)"
    unfolding m using membersAt_shift [OF c0, of "height (boundary q) + BranchIntervalY sz * 2" x2]
    by (simp add: membersAt_def)
  show "membersAt (\<lambda>s. s = QuestionSlot) 0 (members rootCoord)"
    unfolding m using noq by (force simp: membersAt_def)
qed

lemma place_membersAt:
  assumes "membersAt P k (members c)" and "P s" and "s \<in> set (map fst (members c))"
  shows "offsetY (place c x y s n) = y + k"
proof -
  from place_member [OF assms(3), of x y n]
  obtain dx dy where "(s, dx, dy) \<in> set (members c)" "offset (place c x y s n) = (x + dx, y + dy)"
    by auto
  with assms(1,2) show ?thesis by (auto simp: membersAt_def)
qed

text \<open>
  C5: in the convergence-aware layout every choice has a Down edge from the baseline at its
  center, of one branch interval, which ends at the top of the choice node, and a Down
  edge from its bottom center, of half the element gap when more than one choice is
  mapped to its case and of the full gap otherwise. The Up edges are exactly one per case
  with more than one choice, from the top center of its branch node, of one branch
  interval; the Right edges are the baseline under the question and exactly one
  mid-baseline per such case, from the center of the first to the center of the last
  choice of the case.
\<close>

theorem convergence_edges:
  fixes q :: GraphNode and cs bs :: "GraphNode list" and sz :: ElementSizes
  defines "cmap \<equiv> convergenceMap cs bs"
  assumes "dataType (data q) = Choice" and "cmap \<noteq> []"
      and "questionLayouter sz (Some q) cs bs = Some (l, st')"
  shows "\<exists>q'. questionNode st' = Some q'
    \<and> (\<forall>i < length cs.
          offsetY (choiceNodes st' ! i)
            = offsetY q' + height (boundary q') + BranchIntervalY sz + BranchIntervalY sz
        \<and> \<lparr>edgeId = ''edge/'' @ nodeId (choiceNodes st' ! i) @ ''/baseline->choice'',
           direction = Down,
           edgeX = centerX (choiceNodes st' ! i),
           edgeY = offsetY q' + height (boundary q') + BranchIntervalY sz,
           edgeLength = BranchIntervalY sz,
           edgeOptions = None\<rparr> \<in> set (edges l)
        \<and> \<lparr>edgeId = ''edge/'' @ nodeId (choiceNodes st' ! i) @ ''/choice->mid-baseline'',
           direction = Down,
           edgeX = centerX (choiceNodes st' ! i),
           edgeY = offsetY (choiceNodes st' ! i) + height (boundary (choiceNodes st' ! i)),
           edgeLength = (if length (groupOf cmap (length cs) (caseOf cmap i)) > 1
                         then ElementIntervalY sz / 2 else ElementIntervalY sz),
           edgeOptions = None\<rparr> \<in> set (edges l))
    \<and> filter (\<lambda>e. direction e = Up) (edges l)
        = map (\<lambda>c. \<lparr>edgeId = ''edge/'' @ nodeId (branchNodes st' ! c) @ ''/mid-baseline->case'',
                     direction = Up,
                     edgeX = centerX (branchNodes st' ! c),
                     edgeY = offsetY (branchNodes st' ! c),
                     edgeLength = BranchIntervalY sz,
                     edgeOptions = None\<rparr>)
              (filter (\<lambda>c. length (groupOf cmap (length cs) c) > 1) [0..<length bs])
    \<and> filter (\<lambda>e. direction e = Right) (edges l)
        = \<lparr>edgeId = ''edge/'' @ nodeId q' @ ''/baseline'',
           direction = Right,
           edgeX = centerX (hd (choiceNodes st')),
           edgeY = offsetY q' + height (boundary q') + BranchIntervalY sz,
           edgeLength = centerX (last (choiceNodes st')) - centerX (hd (choiceNodes st')),
           edgeOptions = None\<rparr>
          # map (\<lambda>c. \<lparr>edgeId = ''edge/'' @ nodeId (branchNodes st' ! c) @ ''/converged/mid-baseline'',
                       direction = Right,
                       edgeX = centerX (choiceNodes st' ! hd (groupOf cmap (length cs) c)),
                       edgeY = offsetY (choiceNodes st' ! hd (groupOf cmap (length cs) c))
                               + height (boundary (choiceNodes st' ! hd (groupOf cmap (length cs) c)))
                               + ElementIntervalY sz / 2,
                       edgeLength = centerX (choiceNodes st' ! last (groupOf cmap (length cs) c))
                                    - centerX (choiceNodes st' ! hd (groupOf cmap (length cs) c)),
                       edgeOptions = None\<rparr>)
                (filter (\<lambda>c. length (groupOf cmap (length cs) c) > 1) [0..<length bs])"
proof -
  let ?n = "length cs"
  let ?conns = "buildConnections cmap ?n"
  let ?reach = "reachableConnections ?conns"
  let ?st = "\<lparr>questionNode = Some q, choiceNodes = cs, branchNodes = markHidden ?conns bs\<rparr>"
  have res: "questionLayouterBranchingWithConvergence sz (Some q) cs bs = Some (l, st')"
    using assms(2,4) by (simp add: questionLayouter_choice)
  from convergence_result [OF assms(3) [unfolded cmap_def] res]
  obtain rootCoord es where r: "st' = moveCoordTo rootCoord 0 0 ?st"
    "convergenceEdges sz st' ?reach = Some es" "edges l = es"
    "\<forall>(c, js) \<in> set ?reach. c < length bs"
    "convergenceRootCoord sz ?st ?reach = Some rootCoord"
    "map fst (members rootCoord)
          = QuestionSlot # concat (map (\<lambda>(c, js). map ChoiceSlot js @ [BranchSlot c]) ?reach)"
    unfolding cmap_def by auto
  define q' where "q' = place rootCoord 0 0 QuestionSlot q"
  have q': "questionNode st' = Some q'"
    by (simp add: r(1) questionNode_moveCoordTo q'_def)
  have len: "length (choiceNodes st') = ?n" "length (branchNodes st') = length bs"
    by (simp_all add: r(1))
  have ne: "choiceNodes st' \<noteq> []"
    using convergenceMap_nonempty [OF assms(3) [unfolded cmap_def]] len(1) by auto
  have v: "\<forall>(c, js) \<in> set ?reach. (\<forall>j \<in> set js. j < length (choiceNodes st')) \<and> js \<noteq> []
              \<and> (length js > 1 \<longrightarrow> c < length (branchNodes st'))"
    using r(4) by (auto simp: set_reachable set_groupOf len)
  let ?base = "offsetY q' + height (boundary q') + BranchIntervalY sz"
  let ?E = "groupEdgesOf sz st' ?base"
  let ?qe = "\<lparr>edgeId = ''edge/'' @ nodeId q' @ ''/q->baseline'',
               direction = Down,
               edgeX = offsetX q' + axisX (boundary q'),
               edgeY = offsetY q' + height (boundary q'),
               edgeLength = BranchIntervalY sz,
               edgeOptions = None\<rparr>"
  let ?be = "\<lparr>edgeId = ''edge/'' @ nodeId q' @ ''/baseline'',
           direction = Right,
           edgeX = centerX (hd (choiceNodes st')),
           edgeY = offsetY q' + height (boundary q') + BranchIntervalY sz,
           edgeLength = centerX (last (choiceNodes st')) - centerX (hd (choiceNodes st')),
           edgeOptions = None\<rparr>"
  have es: "es = [?qe, ?be] @ concat (map ?E ?reach)"
    using convergenceEdges_eq [OF q' ne v, of sz] r(2) by simp
  have conv_lt: "c < length ?conns \<and> c < length bs" if "length (groupOf cmap (length cs) c) > 1" for c
  proof -
    have "\<not> length ?conns \<le> c"
      using groupOf_empty_beyond [of cmap ?n c] that by (auto simp: group_def)
    moreover have "c < length bs"
      using converged_has_branch [of cs bs ?n c] that by (simp add: group_def cmap_def)
    ultimately show ?thesis by simp
  qed
  have cut: "filter (\<lambda>c. length (groupOf cmap (length cs) c) > 1) [0..<length ?conns]
      = filter (\<lambda>c. length (groupOf cmap (length cs) c) > 1) [0..<length bs]"
    by (rule filter_upt_cut) (use conv_lt in auto)
  have collect: "filter P (concat (map ?E ?reach))
      = map f (filter (\<lambda>c. length (groupOf cmap (length cs) c) > 1) [0..<length bs])"
    if "\<And>c js. filter P (?E (c, js)) = (if length js > 1 then [f' c js] else [])"
      and "\<And>c. f' c (groupOf cmap (length cs) c) = f c" for P f f'
  proof -
    have "filter P (concat (map ?E ?reach))
        = concat (map (\<lambda>c. if groupOf cmap (length cs) c = [] then [] else filter P (?E (c, groupOf cmap (length cs) c))) [0..<length ?conns])"
      unfolding reachable_buildConnections filter_concat_groups group_def ..
    also have "\<dots> = concat (map (\<lambda>c. if length (groupOf cmap (length cs) c) > 1 then [f c] else []) [0..<length ?conns])"
      by (rule arg_cong [where f = concat]) (auto simp: that)
    also have "\<dots> = map f (filter (\<lambda>c. length (groupOf cmap (length cs) c) > 1) [0..<length ?conns])"
      by (rule concat_map_if_singleton)
    finally show ?thesis by (simp only: cut)
  qed
  have up: "filter (\<lambda>e. direction e = Up) es
        = map (\<lambda>c. \<lparr>edgeId = ''edge/'' @ nodeId (branchNodes st' ! c) @ ''/mid-baseline->case'',
                     direction = Up,
                     edgeX = centerX (branchNodes st' ! c),
                     edgeY = offsetY (branchNodes st' ! c),
                     edgeLength = BranchIntervalY sz,
                     edgeOptions = None\<rparr>)
              (filter (\<lambda>c. length (groupOf cmap (length cs) c) > 1) [0..<length bs])"
    unfolding es using collect [OF filter_groupEdgesOf_Up] by simp
  have right: "filter (\<lambda>e. direction e = Right) es
        = ?be # map (\<lambda>c. \<lparr>edgeId = ''edge/'' @ nodeId (branchNodes st' ! c) @ ''/converged/mid-baseline'',
                       direction = Right,
                       edgeX = centerX (choiceNodes st' ! hd (groupOf cmap (length cs) c)),
                       edgeY = offsetY (choiceNodes st' ! hd (groupOf cmap (length cs) c))
                               + height (boundary (choiceNodes st' ! hd (groupOf cmap (length cs) c)))
                               + ElementIntervalY sz / 2,
                       edgeLength = centerX (choiceNodes st' ! last (groupOf cmap (length cs) c))
                                    - centerX (choiceNodes st' ! hd (groupOf cmap (length cs) c)),
                       edgeOptions = None\<rparr>)
                (filter (\<lambda>c. length (groupOf cmap (length cs) c) > 1) [0..<length bs])"
    unfolding es using collect [OF filter_groupEdgesOf_Right] by simp
  have per: "set (choiceEdges sz ?base (length (groupOf cmap (length cs) (caseOf cmap i)) > 1) (choiceNodes st' ! i)) \<subseteq> set es"
    if i: "i < ?n" for i
  proof -
    let ?c = "caseOf cmap i"
    have m: "i \<in> set (groupOf cmap ?n ?c)"
      using i by (simp add: group_def set_groupOf)
    then have "(?c, groupOf cmap ?n ?c) \<in> set ?reach"
      by (auto simp: set_reachable group_def)
    then have "set (?E (?c, groupOf cmap ?n ?c)) \<subseteq> set es"
      unfolding es by auto
    with choiceEdges_in_group [OF m, of sz ?base st' ?c] show ?thesis by blast
  qed
  have qy: "offsetY q' = 0" "height (boundary q') = height (boundary q)"
    using place_membersAt [OF membersAt_convergenceRoot(2) [OF r(5)], of q QuestionSlot 0 0 q]
    by (simp_all add: q'_def r(6))
  have top: "offsetY (choiceNodes st' ! i)
            = offsetY q' + height (boundary q') + BranchIntervalY sz + BranchIntervalY sz"
    if i: "i < ?n" for i
  proof -
    let ?c = "caseOf cmap i"
    have m: "i \<in> set (groupOf cmap ?n ?c)"
      using i by (simp add: set_groupOf)
    then have "(?c, groupOf cmap ?n ?c) \<in> set ?reach"
      by (auto simp: set_reachable)
    from convergence_slot_member(2) [OF this] m
    have "ChoiceSlot i \<in> set (map fst (members rootCoord))"
      unfolding r(6) by blast
    from place_membersAt [OF membersAt_convergenceRoot(1) [OF r(5)] _ this, of q 0 0 "cs ! i"]
    have "offsetY (place rootCoord 0 0 (ChoiceSlot i) (cs ! i)) = height (boundary q) + BranchIntervalY sz * 2"
      by simp
    then show ?thesis
      using i by (simp add: r(1) choiceNodes_moveCoordTo qy)
  qed
  have down: "\<lparr>edgeId = ''edge/'' @ nodeId (choiceNodes st' ! i) @ ''/baseline->choice'',
           direction = Down,
           edgeX = centerX (choiceNodes st' ! i),
           edgeY = ?base,
           edgeLength = BranchIntervalY sz,
           edgeOptions = None\<rparr> \<in> set es
        \<and> \<lparr>edgeId = ''edge/'' @ nodeId (choiceNodes st' ! i) @ ''/choice->mid-baseline'',
           direction = Down,
           edgeX = centerX (choiceNodes st' ! i),
           edgeY = offsetY (choiceNodes st' ! i) + height (boundary (choiceNodes st' ! i)),
           edgeLength = (if length (groupOf cmap (length cs) (caseOf cmap i)) > 1
                         then ElementIntervalY sz / 2 else ElementIntervalY sz),
           edgeOptions = None\<rparr> \<in> set es" if "i < ?n" for i
    using per [OF that] by (simp add: choiceEdges_def)
  show ?thesis
    using q' top down up right unfolding r(3) by blast
qed

text \<open>
  Three choices, the first redirected to the third branch: one Up edge, the baseline and
  one mid-baseline to the right, and seven Down edges.
\<close>

theorem convergence_edges_witness:
  "directionCount Up (questionLayouter exampleSizes (Some choiceQuestion) convergingChoices threeBranches) = Some 1
   \<and> directionCount Right (questionLayouter exampleSizes (Some choiceQuestion) convergingChoices threeBranches) = Some 2
   \<and> directionCount Down (questionLayouter exampleSizes (Some choiceQuestion) convergingChoices threeBranches) = Some 7"
proof -
  let ?cs = "convergingChoices"
  let ?bs = "threeBranches"
  have c: "dataType (data choiceQuestion) = Choice"
    by (simp add: choiceQuestion_def exampleNode_def)
  have ne: "convergenceMap ?cs ?bs \<noteq> []"
    by code_simp
  have "questionLayouter exampleSizes (Some choiceQuestion) ?cs ?bs \<noteq> None"
    by code_simp
  then obtain l st' where r: "questionLayouter exampleSizes (Some choiceQuestion) ?cs ?bs = Some (l, st')"
    by auto
  have g: "filter (\<lambda>c. 1 < length (groupOf (convergenceMap ?cs ?bs) (length ?cs) c)) [0..<length ?bs] = [2]"
    by code_simp
  from convergence_edges [OF c ne r]
  have "length (filter (\<lambda>e. direction e = Up) (edges l)) = 1
      \<and> length (filter (\<lambda>e. direction e = Right) (edges l)) = 2"
    unfolding g by (elim exE conjE) simp
  moreover have "directionCount Down (questionLayouter exampleSizes (Some choiceQuestion) ?cs ?bs) = Some 7"
    by code_simp
  ultimately show ?thesis
    by (simp add: directionCount_def r)
qed

subsection \<open>Prior offsets and repeated calls\<close>

lemma sameInputs_lengths:
  assumes "sameInputs st st'"
  shows "length (choiceNodes st) = length (choiceNodes st')"
    and "length (branchNodes st) = length (branchNodes st')"
  using assms by (auto simp: sameInputs_def dest: list_all2_lengthD)

lemma nodeAt_sameInputs:
  assumes "sameInputs st st'"
  shows "rel_option sameLayoutInput (nodeAt st s) (nodeAt st' s)"
  using assms sameInputs_lengths [OF assms]
  by (cases s) (auto simp: sameInputs_def dest: list_all2_nthD)

lemma elementBoundary_cong:
  assumes "sameInputs st st'"
  shows "elementBoundary st = elementBoundary st'"
proof
  fix e
  show "elementBoundary st e = elementBoundary st' e"
  proof (cases e)
    case (NodeElement s)
    then show ?thesis
      using nodeAt_sameInputs [OF assms, of s]
      by (cases "nodeAt st s"; cases "nodeAt st' s") (auto simp: sameLayoutInput_def)
  qed simp
qed

lemma newGraphCoord_cong:
  "sameInputs st st' \<Longrightarrow> newGraphCoord st = newGraphCoord st'"
  by (intro ext) (simp add: newGraphCoord_def elementBoundary_cong [of st st'])

lemma topAlignWithInterval_cong:
  "sameInputs st st' \<Longrightarrow> topAlignWithInterval st = topAlignWithInterval st'"
  by (intro ext) (simp add: topAlignWithInterval_def elementBoundary_cong [of st st'])

lemma branchingRootCoord_cong:
  assumes "sameInputs st st'"
  shows "branchingRootCoord sz st = branchingRootCoord sz st'"
  using sameInputs_lengths [OF assms]
  by (simp add: branchingRootCoord_def branchingContent_def choiceWithBranchNodes_def
      newGraphCoord_cong [OF assms] topAlignWithInterval_cong [OF assms])

lemma convergenceRootCoord_cong:
  assumes "sameInputs st st'"
  shows "convergenceRootCoord sz st = convergenceRootCoord sz st'"
  by (intro ext) (simp add: convergenceRootCoord_def convergenceContent_def compositedBranchCoords_def
      newGraphCoord_cong [OF assms] topAlignWithInterval_cong [OF assms])

lemma findIndex_cong:
  assumes "list_all2 R xs ys" and "\<And>x y. R x y \<Longrightarrow> P x = Q y"
  shows "findIndex P xs = findIndex Q ys"
  using assms by (induction rule: list_all2_induct) auto

lemma convergenceMap_cong:
  assumes "list_all2 sameLayoutInput cs cs'" and "list_all2 sameLayoutInput bs bs'"
  shows "convergenceMap cs bs = convergenceMap cs' bs'"
proof -
  have len: "length cs = length cs'" using assms(1) by (rule list_all2_lengthD)
  have "convergenceEntry bs (cs ! i) i = convergenceEntry bs' (cs' ! i) i" if "i < length cs" for i
  proof -
    have d: "data (cs ! i) = data (cs' ! i)"
      using list_all2_nthD [OF assms(1) that] by (simp add: sameLayoutInput_def)
    have "findIndex (\<lambda>n. choiceId (data n) = g) bs = findIndex (\<lambda>n. choiceId (data n) = g) bs'" for g
      using assms(2) by (rule findIndex_cong) (simp add: sameLayoutInput_def)
    then show ?thesis by (simp add: convergenceEntry_def d Let_def)
  qed
  then show ?thesis
    unfolding convergenceMap_def len [symmetric]
    by (intro arg_cong [where f = concat] map_cong) auto
qed

lemma place_sameVisible:
  assumes "sameLayoutInput n n'" and "s \<in> set (map fst (members c)) \<or> offset n = offset n'"
  shows "sameVisible (place c x y s n) (place c x y s n')"
proof (cases "map_of (rev (members c)) s")
  case None
  then have "s \<notin> set (map fst (members c))"
    by (simp add: map_of_eq_None_iff)
  with assms None show ?thesis
    by (simp add: place_def sameVisible_def)
next
  case (Some p)
  with assms(1) show ?thesis
    by (cases p) (simp add: place_def sameVisible_def sameLayoutInput_def)
qed

lemma place_not_member:
  "s \<notin> set (map fst (members c)) \<Longrightarrow> place c x y s n = n"
  by (simp add: place_def map_of_eq_None_iff [THEN iffD2])

lemma place_sameLayoutInput: "sameLayoutInput n (place c x y s n)"
  by (simp add: sameLayoutInput_def)

lemma map_list_all2_cong:
  assumes "list_all2 R xs ys" and "\<And>x y. R x y \<Longrightarrow> f x = g y"
  shows "map f xs = map g ys"
  using assms by (induction rule: list_all2_induct) auto

lemma sameVisible_unhide:
  "sameVisible n n' \<Longrightarrow> n\<lparr>hidden := False\<rparr> = n'\<lparr>hidden := False\<rparr>"
  by (simp add: sameVisible_def sameLayoutInput_def)

lemma calculateEdges_unhide:
  "calculateEdges sz b q bs
     = calculateEdges sz b (q\<lparr>hidden := False\<rparr>) (map (\<lambda>n. n\<lparr>hidden := False\<rparr>) bs)"
  by (cases bs) (auto simp: calculateEdges_def Let_def comp_def nth_map)

lemma calculateEdges_cong:
  assumes "sameVisible q q'" and "list_all2 sameVisible bs bs'"
  shows "calculateEdges sz b q bs = calculateEdges sz b q' bs'"
proof -
  have "map (\<lambda>n. n\<lparr>hidden := False\<rparr>) bs = map (\<lambda>n. n\<lparr>hidden := False\<rparr>) bs'"
    using assms(2) by (rule map_list_all2_cong) (rule sameVisible_unhide)
  then show ?thesis
    using sameVisible_unhide [OF assms(1)]
    by (subst calculateEdges_unhide, subst (2) calculateEdges_unhide) simp
qed

lemma outcome_Some [simp]: "outcome (Some (l, st)) = Some (layoutBoundary l, edges l)"
  by (simp add: outcome_def)

lemma outcome_None [simp]: "outcome None = None"
  by (simp add: outcome_def)

lemma plain_slot_member:
  "BranchSlot i \<in> set (QuestionSlot # concat (map (\<lambda>i. [ChoiceSlot i, BranchSlot i]) [0..<m])) \<longleftrightarrow> i < m"
  by auto

lemma branching_outcome_cong:
  assumes q: "sameLayoutInput q q'"
    and cs: "list_all2 sameLayoutInput cs cs'"
    and bs: "list_all2 sameLayoutInput bs bs'"
    and off: "\<forall>i. length cs \<le> i \<and> i < length bs \<longrightarrow> offset (bs ! i) = offset (bs' ! i)"
  shows "outcome (questionLayouterBranching sz (Some q) cs bs)
       = outcome (questionLayouterBranching sz (Some q') cs' bs')"
proof (cases "bs = []")
  case True
  with bs have "bs' = []" by simp
  with True show ?thesis by (simp add: questionLayouterBranching_def)
next
  case False
  let ?st = "\<lparr>questionNode = Some q, choiceNodes = cs, branchNodes = bs\<rparr>"
  let ?st' = "\<lparr>questionNode = Some q', choiceNodes = cs', branchNodes = bs'\<rparr>"
  have len: "length cs = length cs'" "length bs = length bs'"
    using cs bs by (auto dest: list_all2_lengthD)
  have False': "bs' \<noteq> []" using False len by auto
  have si: "sameInputs ?st ?st'"
    using q cs bs by (simp add: sameInputs_def)
  from questionLayouterBranching_result [OF False, of sz q cs]
  obtain rootCoord where r: "branchingRootCoord sz ?st = Some rootCoord"
    "map fst (members rootCoord)
         = QuestionSlot # concat (map (\<lambda>i. [ChoiceSlot i, BranchSlot i]) [0..<min (length cs) (length bs)])"
    "outcome (questionLayouterBranching sz (Some q) cs bs)
       = Some (coordBoundary rootCoord,
               calculateEdges sz (coordBoundary rootCoord) (place rootCoord 0 0 QuestionSlot q)
                 (branchNodes (moveCoordTo rootCoord 0 0 ?st)))"
    by auto
  from questionLayouterBranching_result [OF False', of sz q' cs']
  obtain rootCoord' where r': "branchingRootCoord sz ?st' = Some rootCoord'"
    "outcome (questionLayouterBranching sz (Some q') cs' bs')
       = Some (coordBoundary rootCoord',
               calculateEdges sz (coordBoundary rootCoord') (place rootCoord' 0 0 QuestionSlot q')
                 (branchNodes (moveCoordTo rootCoord' 0 0 ?st')))"
    by auto
  have same: "rootCoord' = rootCoord"
    using r(1) r'(1) branchingRootCoord_cong [OF si, of sz] by simp
  have vq: "sameVisible (place rootCoord 0 0 QuestionSlot q) (place rootCoord 0 0 QuestionSlot q')"
    using q by (intro place_sameVisible) (simp_all add: r(2))
  have vb: "list_all2 sameVisible (branchNodes (moveCoordTo rootCoord 0 0 ?st))
        (branchNodes (moveCoordTo rootCoord 0 0 ?st'))"
  proof (rule list_all2_all_nthI)
    show "length (branchNodes (moveCoordTo rootCoord 0 0 ?st)) = length (branchNodes (moveCoordTo rootCoord 0 0 ?st'))"
      by (simp add: len)
  next
    fix i assume "i < length (branchNodes (moveCoordTo rootCoord 0 0 ?st))"
    then have i: "i < length bs" by simp
    have "sameLayoutInput (bs ! i) (bs' ! i)"
      using list_all2_nthD [OF bs i] .
    moreover have "BranchSlot i \<in> set (map fst (members rootCoord)) \<or> offset (bs ! i) = offset (bs' ! i)"
      unfolding r(2) plain_slot_member using off i by (cases "i < length cs") auto
    ultimately have "sameVisible (place rootCoord 0 0 (BranchSlot i) (bs ! i)) (place rootCoord 0 0 (BranchSlot i) (bs' ! i))"
      by (rule place_sameVisible)
    then show "sameVisible (branchNodes (moveCoordTo rootCoord 0 0 ?st) ! i) (branchNodes (moveCoordTo rootCoord 0 0 ?st') ! i)"
      using i len by (simp add: branchNodes_moveCoordTo)
  qed
  show ?thesis
    unfolding r(3) r'(2) same using calculateEdges_cong [OF vq vb] by simp
qed

lemma convergenceRootCoord_facts:
  assumes "convergenceRootCoord sz st reach = Some rootCoord"
  shows "map fst (members rootCoord)
          = QuestionSlot # concat (map (\<lambda>(c, js). map ChoiceSlot js @ [BranchSlot c]) reach)"
    and "\<forall>(c, js) \<in> set reach. c < length (branchNodes st)"
proof -
  from assms obtain content where
      content: "convergenceContent sz st reach = Some content"
    and n: "newGraphCoord st (NodeElement QuestionSlot) (CoordElement content, 0, BranchIntervalY sz * 2) = Some rootCoord"
    by (auto simp: convergenceRootCoord_def split: Option.bind_splits)
  from content obtain coords where
      coords: "compositedBranchCoords sz st reach = Some coords"
    and t: "topAlignWithInterval st (map CoordElement coords) (BranchIntervalX sz) = Some content"
    by (auto simp: convergenceContent_def split: Option.bind_splits)
  have "map fst (members content) = concat (map (\<lambda>c. map fst (members c)) coords)"
    using topAlignWithInterval_slots [OF t] by (simp add: comp_def)
  also have "\<dots> = concat (map (\<lambda>(c, js). map ChoiceSlot js @ [BranchSlot c]) reach)"
    using compositedBranchCoords_slots(1) [OF coords] by simp
  finally show "map fst (members rootCoord)
          = QuestionSlot # concat (map (\<lambda>(c, js). map ChoiceSlot js @ [BranchSlot c]) reach)"
    using newGraphCoord_slots [OF n] by simp
  show "\<forall>(c, js) \<in> set reach. c < length (branchNodes st)"
    using compositedBranchCoords_slots(2) [OF coords] .
qed

lemma convergence_unfold:
  assumes "convergenceMap cs bs \<noteq> []"
  shows "outcome (questionLayouterBranchingWithConvergence sz (Some q) cs bs)
    = (let connections = buildConnections (convergenceMap cs bs) (length cs);
           st = \<lparr>questionNode = Some q, choiceNodes = cs, branchNodes = markHidden connections bs\<rparr>;
           reachable = reachableConnections connections
       in case convergenceRootCoord sz st reachable of
            None \<Rightarrow> None
          | Some rootCoord \<Rightarrow> map_option (\<lambda>es. (coordBoundary rootCoord, es))
                           (convergenceEdges sz (moveCoordTo rootCoord 0 0 st) reachable))"
  using assms convergenceMap_nonempty [OF assms]
  by (auto simp: questionLayouterBranchingWithConvergence_def Let_def outcome_def
           split: option.splits Option.bind_splits)

lemma choiceEdges_unhide:
  "choiceEdges sz base conv n = choiceEdges sz base conv (n\<lparr>hidden := False\<rparr>)"
  by (simp add: choiceEdges_def)

lemma mergeEdges_unhide:
  "mergeEdges sz b f l
     = mergeEdges sz (b\<lparr>hidden := False\<rparr>) (f\<lparr>hidden := False\<rparr>) (l\<lparr>hidden := False\<rparr>)"
  by (simp add: mergeEdges_def)

lemma choiceEdges_cong:
  "sameVisible n n' \<Longrightarrow> choiceEdges sz base conv n = choiceEdges sz base conv n'"
  using choiceEdges_unhide [of sz base conv n] choiceEdges_unhide [of sz base conv n']
  by (simp add: sameVisible_unhide)

lemma mergeEdges_cong:
  "sameVisible b b' \<Longrightarrow> sameVisible f f' \<Longrightarrow> sameVisible l l' \<Longrightarrow>
     mergeEdges sz b f l = mergeEdges sz b' f' l'"
  using mergeEdges_unhide [of sz b f l] mergeEdges_unhide [of sz b' f' l']
  by (simp add: sameVisible_unhide)

lemma groupEdgesOf_cong:
  assumes "\<forall>j \<in> set js. sameVisible (choiceNodes st ! j) (choiceNodes st' ! j)"
    and "js \<noteq> []"
    and "length js > 1 \<longrightarrow> sameVisible (branchNodes st ! c) (branchNodes st' ! c)"
  shows "groupEdgesOf sz st base (c, js) = groupEdgesOf sz st' base (c, js)"
proof -
  have a: "map (\<lambda>j. choiceEdges sz base (length js > 1) (choiceNodes st ! j)) js
      = map (\<lambda>j. choiceEdges sz base (length js > 1) (choiceNodes st' ! j)) js"
    using assms(1) by (intro map_cong refl choiceEdges_cong) auto
  show ?thesis
  proof (cases "length js > 1")
    case True
    have "mergeEdges sz (branchNodes st ! c) (choiceNodes st ! hd js) (choiceNodes st ! last js)
        = mergeEdges sz (branchNodes st' ! c) (choiceNodes st' ! hd js) (choiceNodes st' ! last js)"
      using assms True by (intro mergeEdges_cong) auto
    then show ?thesis
      unfolding groupEdgesOf_def prod.case a by (simp only:)
  next
    case False
    then show ?thesis
      unfolding groupEdgesOf_def prod.case a by (simp only: if_False)
  qed
qed

lemma markHidden_sameLayoutInput:
  assumes "list_all2 sameLayoutInput bs bs'"
  shows "list_all2 sameLayoutInput (markHidden connections bs) (markHidden connections bs')"
proof (rule list_all2_all_nthI)
  show "length (markHidden connections bs) = length (markHidden connections bs')"
    using assms by (simp add: list_all2_lengthD)
next
  fix i assume "i < length (markHidden connections bs)"
  then have i: "i < length bs" by simp
  then have i': "i < length bs'" using assms by (simp add: list_all2_lengthD)
  show "sameLayoutInput (markHidden connections bs ! i) (markHidden connections bs' ! i)"
    using list_all2_nthD [OF assms i] i i'
    by (simp add: markHidden_nth sameLayoutInput_def)
qed

lemma convergence_outcome_cong:
  assumes q: "sameLayoutInput q q'"
    and cs: "list_all2 sameLayoutInput cs cs'"
    and bs: "list_all2 sameLayoutInput bs bs'"
    and ne: "convergenceMap cs bs \<noteq> []"
  shows "outcome (questionLayouterBranchingWithConvergence sz (Some q) cs bs)
       = outcome (questionLayouterBranchingWithConvergence sz (Some q') cs' bs')"
proof -
  let ?cmap = "convergenceMap cs bs"
  let ?n = "length cs"
  let ?conns = "buildConnections ?cmap ?n"
  let ?reach = "reachableConnections ?conns"
  let ?st = "\<lparr>questionNode = Some q, choiceNodes = cs, branchNodes = markHidden ?conns bs\<rparr>"
  let ?st' = "\<lparr>questionNode = Some q', choiceNodes = cs', branchNodes = markHidden ?conns bs'\<rparr>"
  have cm: "convergenceMap cs' bs' = ?cmap"
    using convergenceMap_cong [OF cs bs] by simp
  have len: "length cs' = ?n" "length bs' = length bs"
    using cs bs by (auto dest: list_all2_lengthD)
  have ne': "convergenceMap cs' bs' \<noteq> []" using ne cm by simp
  have si: "sameInputs ?st ?st'"
    using q cs markHidden_sameLayoutInput [OF bs] by (simp add: sameInputs_def)
  have rc: "convergenceRootCoord sz ?st' ?reach = convergenceRootCoord sz ?st ?reach"
    using convergenceRootCoord_cong [OF si, of sz] by simp
  show ?thesis
  proof (cases "convergenceRootCoord sz ?st ?reach")
    case None
    then show ?thesis
      unfolding convergence_unfold [OF ne] convergence_unfold [OF ne'] cm len Let_def rc by simp
  next
    case (Some rootCoord)
    let ?f = "moveCoordTo rootCoord 0 0 ?st"
    let ?f' = "moveCoordTo rootCoord 0 0 ?st'"
    note facts = convergenceRootCoord_facts [OF Some]
    define qf where "qf = place rootCoord 0 0 QuestionSlot q"
    define qf' where "qf' = place rootCoord 0 0 QuestionSlot q'"
    have qn: "questionNode ?f = Some qf" "questionNode ?f' = Some qf'"
      by (simp_all add: questionNode_moveCoordTo qf_def qf'_def)
    have vq: "sameVisible qf qf'"
      unfolding qf_def qf'_def using q by (intro place_sameVisible) (simp_all add: facts(1))
    have lens: "length (choiceNodes ?f) = ?n" "length (choiceNodes ?f') = ?n"
      "length (branchNodes ?f) = length bs" "length (branchNodes ?f') = length bs"
      by (simp_all add: len)
    have n0: "0 < ?n" using convergenceMap_nonempty [OF ne] by simp
    have nonempty: "choiceNodes ?f \<noteq> []" "choiceNodes ?f' \<noteq> []"
      using n0 lens(1,2) by (metis length_greater_0_conv)+
    have valid: "(\<forall>j \<in> set js. j < ?n) \<and> js \<noteq> [] \<and> c < length bs"
      if "(c, js) \<in> set ?reach" for c js
      using that facts(2) by (auto simp: set_reachable set_groupOf)
    have v: "\<forall>(c, js) \<in> set ?reach. (\<forall>j \<in> set js. j < length (choiceNodes ?f)) \<and> js \<noteq> []
              \<and> (length js > 1 \<longrightarrow> c < length (branchNodes ?f))"
      using valid unfolding lens by blast
    have v': "\<forall>(c, js) \<in> set ?reach. (\<forall>j \<in> set js. j < length (choiceNodes ?f')) \<and> js \<noteq> []
              \<and> (length js > 1 \<longrightarrow> c < length (branchNodes ?f'))"
      using valid unfolding lens by blast
    have vc: "sameVisible (choiceNodes ?f ! j) (choiceNodes ?f' ! j)"
      if "j < ?n" "ChoiceSlot j \<in> set (map fst (members rootCoord))" for j
    proof -
      have "sameVisible (place rootCoord 0 0 (ChoiceSlot j) (cs ! j)) (place rootCoord 0 0 (ChoiceSlot j) (cs' ! j))"
        using list_all2_nthD [OF cs that(1)] that(2) by (intro place_sameVisible) auto
      then show ?thesis using that(1) len by (simp add: choiceNodes_moveCoordTo)
    qed
    have vb: "sameVisible (branchNodes ?f ! c) (branchNodes ?f' ! c)"
      if "c < length bs" "BranchSlot c \<in> set (map fst (members rootCoord))" for c
    proof -
      have "sameLayoutInput (markHidden ?conns bs ! c) (markHidden ?conns bs' ! c)"
        using list_all2_nthD [OF markHidden_sameLayoutInput [OF bs]] that(1) by simp
      then have "sameVisible (place rootCoord 0 0 (BranchSlot c) (markHidden ?conns bs ! c))
          (place rootCoord 0 0 (BranchSlot c) (markHidden ?conns bs' ! c))"
        using that(2) by (intro place_sameVisible) auto
      then show ?thesis using that(1) len by (simp add: branchNodes_moveCoordTo)
    qed
    have all_choices: "sameVisible (choiceNodes ?f ! j) (choiceNodes ?f' ! j)" if j: "j < ?n" for j
    proof -
      let ?c = "caseOf ?cmap j"
      have "j \<in> set (groupOf ?cmap ?n ?c)" using j by (simp add: set_groupOf)
      then have "(?c, groupOf ?cmap ?n ?c) \<in> set ?reach" by (auto simp: set_reachable)
      from convergence_slot_member(2) [OF this] \<open>j \<in> set (groupOf ?cmap ?n ?c)\<close>
      have "ChoiceSlot j \<in> set (map fst (members rootCoord))"
        unfolding facts(1) by blast
      with j show ?thesis by (rule vc)
    qed
    let ?base = "offsetY qf + height (boundary qf) + BranchIntervalY sz"
    have qeq: "nodeId qf' = nodeId qf" "offset qf' = offset qf" "boundary qf' = boundary qf"
      using vq by (simp_all add: sameVisible_def sameLayoutInput_def)
    have groups: "map (groupEdgesOf sz ?f ?base) ?reach = map (groupEdgesOf sz ?f' ?base) ?reach"
    proof (rule map_cong [OF refl])
      fix g assume g: "g \<in> set ?reach"
      obtain c js where cj: "g = (c, js)" by (cases g)
      have "BranchSlot c \<in> set (map fst (members rootCoord))"
        using convergence_slot_member(1) [of c js ?reach] g unfolding facts(1) cj by blast
      then have b: "sameVisible (branchNodes ?f ! c) (branchNodes ?f' ! c)"
        using valid [of c js] g cj by (intro vb) auto
      have "\<forall>j \<in> set js. sameVisible (choiceNodes ?f ! j) (choiceNodes ?f' ! j)"
        using valid [of c js] g cj all_choices by auto
      then show "groupEdgesOf sz ?f ?base g = groupEdgesOf sz ?f' ?base g"
        unfolding cj using valid [of c js] g cj b by (intro groupEdgesOf_cong) auto
    qed
    have hd_last: "offset (hd (choiceNodes ?f')) = offset (hd (choiceNodes ?f))"
      "boundary (hd (choiceNodes ?f')) = boundary (hd (choiceNodes ?f))"
      "offset (last (choiceNodes ?f')) = offset (last (choiceNodes ?f))"
      "boundary (last (choiceNodes ?f')) = boundary (last (choiceNodes ?f))"
      using all_choices [of 0] all_choices [of "?n - 1"] n0 nonempty lens
      by (simp_all add: hd_conv_nth last_conv_nth sameVisible_def sameLayoutInput_def del: length_moveCoordTo)
    have "convergenceEdges sz ?f ?reach = convergenceEdges sz ?f' ?reach"
      unfolding convergenceEdges_eq [OF qn(1) nonempty(1) v] convergenceEdges_eq [OF qn(2) nonempty(2) v']
        qeq hd_last groups ..
    then show ?thesis
      unfolding convergence_unfold [OF ne] convergence_unfold [OF ne'] cm len Let_def rc Some
      by simp
  qed
qed

lemma convergence_empty_map:
  "convergenceMap cs bs = [] \<Longrightarrow>
     questionLayouterBranchingWithConvergence sz (Some q) cs bs = questionLayouterBranching sz (Some q) cs bs"
  by (simp add: questionLayouterBranchingWithConvergence_def questionLayouterBranching_def)

lemma questionLayouter_outcome_cong:
  assumes q: "sameLayoutInput q q'"
    and cs: "list_all2 sameLayoutInput cs cs'"
    and bs: "list_all2 sameLayoutInput bs bs'"
    and off: "dataType (data q) = Confirm \<or> convergenceMap cs bs = [] \<Longrightarrow>
                \<forall>i. length cs \<le> i \<and> i < length bs \<longrightarrow> offset (bs ! i) = offset (bs' ! i)"
  shows "outcome (questionLayouter sz (Some q) cs bs) = outcome (questionLayouter sz (Some q') cs' bs')"
proof -
  have t: "dataType (data q') = dataType (data q)"
    using q by (simp add: sameLayoutInput_def)
  have cm: "convergenceMap cs' bs' = convergenceMap cs bs"
    using convergenceMap_cong [OF cs bs] by simp
  consider (choice_plain) "dataType (data q) = Choice" "convergenceMap cs bs = []"
    | (choice_conv) "dataType (data q) = Choice" "convergenceMap cs bs \<noteq> []"
    | (confirm) "dataType (data q) = Confirm"
    | (other) "dataType (data q) \<noteq> Choice" "dataType (data q) \<noteq> Confirm"
    by blast
  then show ?thesis
  proof cases
    case choice_plain
    then show ?thesis
      using branching_outcome_cong [OF q cs bs off, of sz] t cm
      by (simp add: questionLayouter_choice convergence_empty_map)
  next
    case choice_conv
    then show ?thesis
      using convergence_outcome_cong [OF q cs bs, of sz] t
      by (simp add: questionLayouter_choice)
  next
    case confirm
    then show ?thesis
      using branching_outcome_cong [OF q cs bs off, of sz] t
      by (simp add: questionLayouter_def)
  next
    case other
    then show ?thesis
      using t by (cases "dataType (data q)") (simp_all add: questionLayouter_def questionLayouterNonBranching_def)
  qed
qed

lemma moveCoordTo_sameLayoutInput:
  assumes "list_all2 sameLayoutInput cs (choiceNodes st)" and "list_all2 sameLayoutInput bs (branchNodes st)"
  shows "list_all2 sameLayoutInput cs (choiceNodes (moveCoordTo c x y st))"
    and "list_all2 sameLayoutInput bs (branchNodes (moveCoordTo c x y st))"
proof -
  have l: "length cs = length (choiceNodes st)" "length bs = length (branchNodes st)"
    using assms by (auto dest: list_all2_lengthD)
  show "list_all2 sameLayoutInput cs (choiceNodes (moveCoordTo c x y st))"
  proof (rule list_all2_all_nthI)
    fix i assume i: "i < length cs"
    then show "sameLayoutInput (cs ! i) (choiceNodes (moveCoordTo c x y st) ! i)"
      using list_all2_nthD [OF assms(1) i] l
      by (simp add: choiceNodes_moveCoordTo sameLayoutInput_def)
  qed (simp add: l)
  show "list_all2 sameLayoutInput bs (branchNodes (moveCoordTo c x y st))"
  proof (rule list_all2_all_nthI)
    fix i assume i: "i < length bs"
    then show "sameLayoutInput (bs ! i) (branchNodes (moveCoordTo c x y st) ! i)"
      using list_all2_nthD [OF assms(2) i] l
      by (simp add: branchNodes_moveCoordTo sameLayoutInput_def)
  qed (simp add: l)
qed

lemma sameLayoutInput_refl [simp]: "sameLayoutInput n n"
  by (simp add: sameLayoutInput_def)

lemma list_all2_sameLayoutInput_refl [simp]: "list_all2 sameLayoutInput xs xs"
  by (simp add: list_all2_refl)

lemma result_sameInputs:
  assumes "questionLayouter sz (Some q) cs bs = Some (l, st)"
  shows "\<exists>q1. questionNode st = Some q1 \<and> sameLayoutInput q q1
     \<and> list_all2 sameLayoutInput cs (choiceNodes st)
     \<and> list_all2 sameLayoutInput bs (branchNodes st)
     \<and> (dataType (data q) = Confirm \<or> convergenceMap cs bs = [] \<longrightarrow>
          (\<forall>i. length cs \<le> i \<and> i < length bs \<longrightarrow> offset (bs ! i) = offset (branchNodes st ! i)))"
proof -
  have plain: ?thesis if r: "questionLayouterBranching sz (Some q) cs bs = Some (l, st)"
  proof (cases "bs = []")
    case True
    with r show ?thesis by (auto simp: questionLayouterBranching_def)
  next
    case False
    let ?st = "\<lparr>questionNode = Some q, choiceNodes = cs, branchNodes = bs\<rparr>"
    from questionLayouterBranching_result [OF False, of sz q cs] r
    obtain rootCoord where rc: "st = moveCoordTo rootCoord 0 0 ?st"
      "map fst (members rootCoord)
         = QuestionSlot # concat (map (\<lambda>i. [ChoiceSlot i, BranchSlot i]) [0..<min (length cs) (length bs)])"
      by auto
    have "questionNode st = Some (place rootCoord 0 0 QuestionSlot q)"
      by (simp add: rc(1) questionNode_moveCoordTo)
    moreover have "list_all2 sameLayoutInput cs (choiceNodes st)" "list_all2 sameLayoutInput bs (branchNodes st)"
      unfolding rc(1) using moveCoordTo_sameLayoutInput [of cs ?st bs rootCoord 0 0] by simp_all
    moreover have "offset (bs ! i) = offset (branchNodes st ! i)" if "length cs \<le> i" "i < length bs" for i
    proof -
      have "BranchSlot i \<notin> set (map fst (members rootCoord))"
        unfolding rc(2) plain_slot_member using that by simp
      then show ?thesis
        using that by (simp add: rc(1) branchNodes_moveCoordTo place_not_member)
    qed
    ultimately show ?thesis by (auto simp: place_sameLayoutInput)
  qed
  consider (choice_plain) "dataType (data q) = Choice" "convergenceMap cs bs = []"
    | (choice_conv) "dataType (data q) = Choice" "convergenceMap cs bs \<noteq> []"
    | (confirm) "dataType (data q) = Confirm"
    | (other) "dataType (data q) \<noteq> Choice" "dataType (data q) \<noteq> Confirm"
    by blast
  then show ?thesis
  proof cases
    case choice_plain
    then show ?thesis
      using assms by (intro plain) (simp add: questionLayouter_choice convergence_empty_map)
  next
    case confirm
    then show ?thesis
      using assms by (intro plain) (simp add: questionLayouter_def)
  next
    case other
    then show ?thesis
      using assms by (cases "dataType (data q)") (auto simp: questionLayouter_def)
  next
    case choice_conv
    let ?conns = "buildConnections (convergenceMap cs bs) (length cs)"
    let ?st = "\<lparr>questionNode = Some q, choiceNodes = cs, branchNodes = markHidden ?conns bs\<rparr>"
    have res: "questionLayouterBranchingWithConvergence sz (Some q) cs bs = Some (l, st)"
      using assms choice_conv(1) by (simp add: questionLayouter_choice)
    from convergence_result [OF choice_conv(2) res]
    obtain rootCoord where rc: "st = moveCoordTo rootCoord 0 0 ?st" by auto
    have "questionNode st = Some (place rootCoord 0 0 QuestionSlot q)"
      by (simp add: rc questionNode_moveCoordTo)
    moreover have "list_all2 sameLayoutInput bs (markHidden ?conns bs)"
      by (rule list_all2_all_nthI) (simp_all add: markHidden_nth sameLayoutInput_def)
    then have "list_all2 sameLayoutInput cs (choiceNodes st)" "list_all2 sameLayoutInput bs (branchNodes st)"
      unfolding rc using moveCoordTo_sameLayoutInput [of cs ?st bs rootCoord 0 0] by simp_all
    ultimately show ?thesis
      using choice_conv by (auto simp: place_sameLayoutInput)
  qed
qed

text \<open>
  C8, as amended: a second call on the nodes as the first call left them returns the same
  boundary and edges. Two inputs that differ only in the offsets and the hidden flags of
  their nodes give the same boundary and edges, provided they agree on the offsets of the
  branch nodes at indices from \<^verbatim>\<open>choiceNodes.length\<close> on: the plain branching layout does
  not compose these and reads their offsets as they are.
\<close>

theorem layout_repeated_and_offsets:
  "(questionLayouter sz qn cs bs = Some (l, st) \<longrightarrow>
      outcome (questionLayouter sz (questionNode st) (choiceNodes st) (branchNodes st))
        = Some (layoutBoundary l, edges l))
   \<and> (sameLayoutInput q q' \<and> list_all2 sameLayoutInput cs cs' \<and> list_all2 sameLayoutInput bs bs'
        \<and> (\<forall>i. length cs \<le> i \<and> i < length bs \<longrightarrow> offset (bs ! i) = offset (bs' ! i)) \<longrightarrow>
      outcome (questionLayouter sz (Some q) cs bs) = outcome (questionLayouter sz (Some q') cs' bs'))"
proof (intro conjI impI)
  assume r: "questionLayouter sz qn cs bs = Some (l, st)"
  show "outcome (questionLayouter sz (questionNode st) (choiceNodes st) (branchNodes st))
        = Some (layoutBoundary l, edges l)"
  proof (cases qn)
    case None
    with r show ?thesis by (auto simp: questionLayouter_def)
  next
    case (Some q0)
    from result_sameInputs [OF r [unfolded Some]]
    obtain q1 where s: "questionNode st = Some q1" "sameLayoutInput q0 q1"
      "list_all2 sameLayoutInput cs (choiceNodes st)" "list_all2 sameLayoutInput bs (branchNodes st)"
      "dataType (data q0) = Confirm \<or> convergenceMap cs bs = [] \<longrightarrow>
          (\<forall>i. length cs \<le> i \<and> i < length bs \<longrightarrow> offset (bs ! i) = offset (branchNodes st ! i))"
      by blast
    have "outcome (questionLayouter sz (Some q0) cs bs)
        = outcome (questionLayouter sz (Some q1) (choiceNodes st) (branchNodes st))"
      using s(5) by (intro questionLayouter_outcome_cong s(2,3,4)) blast
    with r show ?thesis by (simp add: s(1) Some)
  qed
next
  assume a: "sameLayoutInput q q' \<and> list_all2 sameLayoutInput cs cs' \<and> list_all2 sameLayoutInput bs bs'
        \<and> (\<forall>i. length cs \<le> i \<and> i < length bs \<longrightarrow> offset (bs ! i) = offset (bs' ! i))"
  then show "outcome (questionLayouter sz (Some q) cs bs) = outcome (questionLayouter sz (Some q') cs' bs')"
    by (intro questionLayouter_outcome_cong) auto
qed

text \<open>
  A second call after a first one with one choice and two branches, and a convergence
  layout on nodes that were moved and hidden before the call.
\<close>

theorem layout_repeated_and_offsets_witness:
  "(\<exists>l st. questionLayouter exampleSizes (Some confirmQuestion) oneChoice twoBranchesMoved = Some (l, st)
       \<and> outcome (questionLayouter exampleSizes (questionNode st) (choiceNodes st) (branchNodes st))
           = Some (layoutBoundary l, edges l))
   \<and> outcome (questionLayouter exampleSizes (Some choiceQuestion) convergingChoices threeBranches)
       = outcome (questionLayouter exampleSizes (Some (choiceQuestion\<lparr>offset := (5, 7)\<rparr>))
           (map (\<lambda>n. n\<lparr>offset := (1, 2)\<rparr>) convergingChoices)
           (map (\<lambda>n. n\<lparr>offset := (3, 4), hidden := True\<rparr>) threeBranches))"
proof -
  have "questionLayouter exampleSizes (Some confirmQuestion) oneChoice twoBranchesMoved \<noteq> None"
    by code_simp
  then obtain l st where r: "questionLayouter exampleSizes (Some confirmQuestion) oneChoice twoBranchesMoved = Some (l, st)"
    by auto
  have 1: "\<exists>l st. questionLayouter exampleSizes (Some confirmQuestion) oneChoice twoBranchesMoved = Some (l, st)
       \<and> outcome (questionLayouter exampleSizes (questionNode st) (choiceNodes st) (branchNodes st))
           = Some (layoutBoundary l, edges l)"
    using layout_repeated_and_offsets [of exampleSizes "Some confirmQuestion" oneChoice twoBranchesMoved l st] r
    by blast
  have h: "sameLayoutInput choiceQuestion (choiceQuestion\<lparr>offset := (5, 7)\<rparr>)"
    "list_all2 sameLayoutInput convergingChoices (map (\<lambda>n. n\<lparr>offset := (1, 2)\<rparr>) convergingChoices)"
    "list_all2 sameLayoutInput threeBranches (map (\<lambda>n. n\<lparr>offset := (3, 4), hidden := True\<rparr>) threeBranches)"
    "\<forall>i. length convergingChoices \<le> i \<and> i < length threeBranches \<longrightarrow>
       offset (threeBranches ! i) = offset (map (\<lambda>n. n\<lparr>offset := (3, 4), hidden := True\<rparr>) threeBranches ! i)"
    by (auto simp: sameLayoutInput_def list_all2_map2 list_all2_refl convergingChoices_def threeBranches_def)
  show ?thesis
    using 1 layout_repeated_and_offsets [of exampleSizes _ convergingChoices threeBranches _ _
        choiceQuestion "choiceQuestion\<lparr>offset := (5, 7)\<rparr>"
        "map (\<lambda>n. n\<lparr>offset := (1, 2)\<rparr>) convergingChoices"
        "map (\<lambda>n. n\<lparr>offset := (3, 4), hidden := True\<rparr>) threeBranches"] h
    by blast
qed

text \<open>
  C8 as stated: with one choice and two branches the second branch node is not composed,
  and its prior offset enters the edges.
\<close>

theorem prior_offset_counterexample:
  "outcome (questionLayouter exampleSizes (Some confirmQuestion) oneChoice twoBranches)
     \<noteq> outcome (questionLayouter exampleSizes (Some confirmQuestion) oneChoice twoBranchesMoved)"
  by code_simp

subsection \<open>The attachments of the plain branching layout\<close>

lemma distinct_plain_slots:
  "distinct (QuestionSlot # concat (map (\<lambda>i. [ChoiceSlot i, BranchSlot i]) [0..<m]))"
  by (induction m) auto

lemma place_distinct:
  assumes "distinct (map fst (members c))" and "(s, dx, dy) \<in> set (members c)"
  shows "place c x y s n = n\<lparr>offset := (x + dx, y + dy)\<rparr>"
proof -
  have "distinct (map fst (rev (members c)))"
    using assms(1) by (simp add: rev_map [symmetric])
  moreover have "(s, dx, dy) \<in> set (rev (members c))"
    using assms(2) by simp
  ultimately have "map_of (rev (members c)) s = Some (dx, dy)"
    by (rule map_of_is_SomeI)
  then show ?thesis by (simp add: place_def)
qed

lemma newGraphCoord_pair_members:
  assumes "newGraphCoord st (NodeElement (ChoiceSlot i)) (NodeElement (BranchSlot i), 0, m) = Some c"
  shows "\<exists>X. members c = [(ChoiceSlot i, X - axisX (boundary (choiceNodes st ! i)), 0),
                           (BranchSlot i, X - axisX (boundary (branchNodes st ! i)),
                              height (boundary (choiceNodes st ! i)) + m)]"
  using assms
  by (auto simp: newGraphCoord_def Let_def split: Option.bind_splits if_splits)

lemma rowMembers_shift:
  assumes "i < length cs"
  shows "\<exists>X. \<forall>(s, dx, dy) \<in> set (members (cs ! i)).
            (s, dx + X, dy) \<in> set (rowMembers iv x (zip (map CoordElement cs) (map coordBoundary cs)))"
  using assms
proof (induction cs arbitrary: i x)
  case Nil
  then show ?case by simp
next
  case (Cons c cs)
  show ?case
  proof (cases i)
    case 0
    then show ?thesis by (intro exI [of _ x]) force
  next
    case (Suc j)
    with Cons.prems have "j < length cs" by simp
    from Cons.IH [OF this, of "x + width (coordBoundary c) + iv"]
    show ?thesis by (auto simp: Suc)
  qed
qed

lemma plain_attached:
  fixes q :: GraphNode and cs bs :: "GraphNode list"
  defines "st \<equiv> \<lparr>questionNode = Some q, choiceNodes = cs, branchNodes = bs\<rparr>"
  assumes "branchingRootCoord sz st = Some rootCoord" and "i < min (length cs) (length bs)"
  shows "\<exists>X Y. (ChoiceSlot i, X - axisX (boundary (cs ! i)), Y) \<in> set (members rootCoord)
             \<and> (BranchSlot i, X - axisX (boundary (bs ! i)),
                   Y + height (boundary (cs ! i)) + ElementIntervalY sz) \<in> set (members rootCoord)"
proof -
  from assms(2) obtain content where
      content: "branchingContent sz st = Some content"
    and n: "newGraphCoord st (NodeElement QuestionSlot)
              (CoordElement (content\<lparr>coordBoundary :=
                 (coordBoundary content)\<lparr>height := height (coordBoundary content) + 200\<rparr>\<rparr>),
               0, BranchIntervalY sz * 2) = Some rootCoord"
    by (auto simp: branchingRootCoord_def Let_def split: Option.bind_splits)
  from content obtain pairs where
      pairs: "choiceWithBranchNodes sz st = Some pairs"
    and t: "topAlignWithInterval st (map CoordElement pairs) (BranchIntervalX sz) = Some content"
    by (auto simp: branchingContent_def split: Option.bind_splits)
  from pairs have th: "those (map (\<lambda>i. newGraphCoord st (NodeElement (ChoiceSlot i))
                        (NodeElement (BranchSlot i), 0, ElementIntervalY sz))
                [0..<min (length cs) (length bs)]) = Some pairs"
    by (simp add: choiceWithBranchNodes_def st_def)
  from those_map_SomeD [OF th] assms(3)
  have l: "i < length pairs"
    and e: "newGraphCoord st (NodeElement (ChoiceSlot i))
               (NodeElement (BranchSlot i), 0, ElementIntervalY sz) = Some (pairs ! i)"
    by auto
  from newGraphCoord_pair_members [OF e]
  obtain X where X: "members (pairs ! i)
      = [(ChoiceSlot i, X - axisX (boundary (cs ! i)), 0),
         (BranchSlot i, X - axisX (boundary (bs ! i)), height (boundary (cs ! i)) + ElementIntervalY sz)]"
    by (auto simp: st_def)
  have mc: "members content = rowMembers (BranchIntervalX sz) 0 (zip (map CoordElement pairs) (map coordBoundary pairs))"
    using t unfolding topAlignWithInterval_coords by auto
  from rowMembers_shift [OF l, of "BranchIntervalX sz" 0]
  obtain X1 where X1:
      "(ChoiceSlot i, X - axisX (boundary (cs ! i)) + X1, 0) \<in> set (members content)"
      "(BranchSlot i, X - axisX (boundary (bs ! i)) + X1, height (boundary (cs ! i)) + ElementIntervalY sz)
          \<in> set (members content)"
    unfolding X mc by auto
  from newGraphCoord_members [OF n]
  obtain x1 x2 and pb :: Boundary where m: "members rootCoord
      = elementMembers (NodeElement QuestionSlot) x1 0
        @ elementMembers (CoordElement (content\<lparr>coordBoundary :=
                 (coordBoundary content)\<lparr>height := height (coordBoundary content) + 200\<rparr>\<rparr>)) x2 (height pb + BranchIntervalY sz * 2)"
    by blast
  have "(ChoiceSlot i, (X + X1 + x2) - axisX (boundary (cs ! i)), height pb + BranchIntervalY sz * 2) \<in> set (members rootCoord)"
    unfolding m using X1(1) by (force simp: algebra_simps)
  moreover have "(BranchSlot i, (X + X1 + x2) - axisX (boundary (bs ! i)),
       (height pb + BranchIntervalY sz * 2) + height (boundary (cs ! i)) + ElementIntervalY sz) \<in> set (members rootCoord)"
    unfolding m using X1(2) by (force simp: algebra_simps)
  ultimately show ?thesis by blast
qed

lemma calculateEdges_Right:
  "filter (\<lambda>e. direction e = Right) (calculateEdges sz b q bs)
     = (if length bs > 1
        then [\<lparr>edgeId = ''edge/'' @ nodeId q @ ''/baseline'',
               direction = Right,
               edgeX = offsetX (hd bs) + axisX (boundary (hd bs)),
               edgeY = offsetY q + height (boundary q) + BranchIntervalY sz,
               edgeLength = offsetX (last bs) + axisX (boundary (last bs))
                            - (offsetX (hd bs) + axisX (boundary (hd bs))),
               edgeOptions = None\<rparr>]
        else [])"
proof (cases bs)
  case Nil
  then show ?thesis by (simp add: calculateEdges_def)
next
  case (Cons x xs)
  then show ?thesis
    by (simp add: calculateEdges_def Let_def filter_map comp_def last_conv_nth hd_conv_nth)
qed

text \<open>
  C4: for a question of type confirm with no more branches than choices, one choice-branch
  pair is composed per index below the smaller of the two lengths, each holding the
  choice node and the branch node of that index. The composite that is moved into place
  and gives the layout its boundary holds the question node and exactly these pairs. In
  the returned nodes the branch node of every such index is attached to its choice node:
  on the same center line, and below it by the height of the choice node and the element
  interval; a choice node of a higher index is left as it was. The edges to the right are
  exactly the one baseline, from the center of the first branch node to the center of the
  last, when there is more than one branch node, and none when there is one.
\<close>

theorem confirm_attachments_and_baseline:
  assumes "dataType (data q) = Confirm" and "length bs \<le> length cs"
  defines "st \<equiv> \<lparr>questionNode = Some q, choiceNodes = cs, branchNodes = bs\<rparr>"
  shows "(bs = [] \<longrightarrow> questionLayouter sz (Some q) cs bs = Some (newGraphLayout, st))
   \<and> (bs \<noteq> [] \<longrightarrow>
        (\<exists>pairs rootCoord l st' q'.
            choiceWithBranchNodes sz st = Some pairs
          \<and> length pairs = min (length cs) (length bs)
          \<and> (\<forall>i < length pairs. map fst (members (pairs ! i)) = [ChoiceSlot i, BranchSlot i])
          \<and> branchingRootCoord sz st = Some rootCoord
          \<and> map fst (members rootCoord)
               = QuestionSlot # concat (map (\<lambda>i. [ChoiceSlot i, BranchSlot i]) [0..<min (length cs) (length bs)])
          \<and> questionLayouter sz (Some q) cs bs = Some (l, st')
          \<and> layoutBoundary l = coordBoundary rootCoord
          \<and> st' = moveCoordTo rootCoord 0 0 st
          \<and> mapChoiceNodes (nodeMap l) = Some (choiceNodes st')
          \<and> mapBranchNodes (nodeMap l) = Some (branchNodes st')
          \<and> length (choiceNodes st') = length cs
          \<and> length (branchNodes st') = length bs
          \<and> (\<forall>i < min (length cs) (length bs).
                  sameLayoutInput (cs ! i) (choiceNodes st' ! i)
                \<and> sameLayoutInput (bs ! i) (branchNodes st' ! i)
                \<and> centerX (branchNodes st' ! i) = centerX (choiceNodes st' ! i)
                \<and> offsetY (branchNodes st' ! i)
                     = offsetY (choiceNodes st' ! i) + height (boundary (choiceNodes st' ! i))
                       + ElementIntervalY sz)
          \<and> (\<forall>i < length cs. min (length cs) (length bs) \<le> i \<longrightarrow> choiceNodes st' ! i = cs ! i)
          \<and> questionNode st' = Some q'
          \<and> filter (\<lambda>e. direction e = Right) (edges l)
              = (if length bs > 1
                 then [\<lparr>edgeId = ''edge/'' @ nodeId q @ ''/baseline'',
                        direction = Right,
                        edgeX = offsetX (hd (branchNodes st')) + axisX (boundary (hd (branchNodes st'))),
                        edgeY = offsetY q' + height (boundary q') + BranchIntervalY sz,
                        edgeLength = offsetX (last (branchNodes st')) + axisX (boundary (last (branchNodes st')))
                            - (offsetX (hd (branchNodes st')) + axisX (boundary (hd (branchNodes st')))),
                        edgeOptions = None\<rparr>]
                 else [])))"
proof (intro conjI impI)
  assume "bs = []"
  then show "questionLayouter sz (Some q) cs bs = Some (newGraphLayout, st)"
    using assms(1) by (simp add: questionLayouter_def questionLayouterBranching_def st_def)
next
  assume ne: "bs \<noteq> []"
  let ?m = "min (length cs) (length bs)"
  have ql: "questionLayouter sz (Some q) cs bs = questionLayouterBranching sz (Some q) cs bs"
    using assms(1) by (simp add: questionLayouter_def)
  obtain pairs where p: "choiceWithBranchNodes sz st = Some pairs"
    "length pairs = ?m"
    "\<forall>i < length pairs. map fst (members (pairs ! i)) = [ChoiceSlot i, BranchSlot i]"
    using choiceWithBranchNodes_Some [of sz st] by (auto simp: st_def)
  from questionLayouterBranching_result [OF ne, of sz q cs]
  obtain rootCoord where rc: "branchingRootCoord sz st = Some rootCoord"
    and sl: "map fst (members rootCoord)
               = QuestionSlot # concat (map (\<lambda>i. [ChoiceSlot i, BranchSlot i]) [0..<?m])"
    and r: "questionLayouterBranching sz (Some q) cs bs
         = Some (\<lparr>layoutBoundary = coordBoundary rootCoord,
                   nodeMap = \<lparr>mapQuestionNode = Some (place rootCoord 0 0 QuestionSlot q),
                              mapChoiceNodes = Some (choiceNodes (moveCoordTo rootCoord 0 0 st)),
                              mapBranchNodes = Some (branchNodes (moveCoordTo rootCoord 0 0 st))\<rparr>,
                   edges = calculateEdges sz (coordBoundary rootCoord) (place rootCoord 0 0 QuestionSlot q)
                             (branchNodes (moveCoordTo rootCoord 0 0 st)),
                   nodes = []\<rparr>, moveCoordTo rootCoord 0 0 st)"
    by (auto simp: st_def)
  let ?st' = "moveCoordTo rootCoord 0 0 st"
  let ?l = "\<lparr>layoutBoundary = coordBoundary rootCoord,
                   nodeMap = \<lparr>mapQuestionNode = Some (place rootCoord 0 0 QuestionSlot q),
                              mapChoiceNodes = Some (choiceNodes ?st'),
                              mapBranchNodes = Some (branchNodes ?st')\<rparr>,
                   edges = calculateEdges sz (coordBoundary rootCoord) (place rootCoord 0 0 QuestionSlot q)
                             (branchNodes ?st'),
                   nodes = []\<rparr>"
  have q': "questionNode ?st' = Some (place rootCoord 0 0 QuestionSlot q)"
    using nodeAt_moveCoordTo [of rootCoord 0 0 st QuestionSlot] by (simp add: st_def)
  have len: "length (branchNodes st) = length bs" "length (choiceNodes st) = length cs"
    by (simp_all add: st_def)
  have d: "distinct (map fst (members rootCoord))"
    unfolding sl by (rule distinct_plain_slots)
  have cn: "choiceNodes ?st' ! i = place rootCoord 0 0 (ChoiceSlot i) (cs ! i)" if "i < length cs" for i
    using that by (simp add: choiceNodes_moveCoordTo st_def)
  have bn: "branchNodes ?st' ! i = place rootCoord 0 0 (BranchSlot i) (bs ! i)" if "i < length bs" for i
    using that by (simp add: branchNodes_moveCoordTo st_def)
  have att: "sameLayoutInput (cs ! i) (choiceNodes ?st' ! i)
                \<and> sameLayoutInput (bs ! i) (branchNodes ?st' ! i)
                \<and> centerX (branchNodes ?st' ! i) = centerX (choiceNodes ?st' ! i)
                \<and> offsetY (branchNodes ?st' ! i)
                     = offsetY (choiceNodes ?st' ! i) + height (boundary (choiceNodes ?st' ! i))
                       + ElementIntervalY sz" if i: "i < ?m" for i
  proof -
    from plain_attached [OF rc [unfolded st_def] i]
    obtain X Y where c: "(ChoiceSlot i, X - axisX (boundary (cs ! i)), Y) \<in> set (members rootCoord)"
      and b: "(BranchSlot i, X - axisX (boundary (bs ! i)),
                   Y + height (boundary (cs ! i)) + ElementIntervalY sz) \<in> set (members rootCoord)"
      by blast
    have "choiceNodes ?st' ! i = (cs ! i)\<lparr>offset := (0 + (X - axisX (boundary (cs ! i))), 0 + Y)\<rparr>"
      using cn [of i] i place_distinct [OF d c] by simp
    moreover have "branchNodes ?st' ! i = (bs ! i)\<lparr>offset := (0 + (X - axisX (boundary (bs ! i))),
           0 + (Y + height (boundary (cs ! i)) + ElementIntervalY sz))\<rparr>"
      using bn [of i] i place_distinct [OF d b] by simp
    ultimately show ?thesis by (simp add: sameLayoutInput_def)
  qed
  have rest: "choiceNodes ?st' ! i = cs ! i" if "i < length cs" "?m \<le> i" for i
  proof -
    have "ChoiceSlot i \<notin> set (map fst (members rootCoord))"
      unfolding sl using that(2) by auto
    then show ?thesis using cn [OF that(1)] by (simp add: place_not_member)
  qed
  have right: "filter (\<lambda>e. direction e = Right) (edges ?l)
              = (if length bs > 1
                 then [\<lparr>edgeId = ''edge/'' @ nodeId q @ ''/baseline'',
                        direction = Right,
                        edgeX = offsetX (hd (branchNodes ?st')) + axisX (boundary (hd (branchNodes ?st'))),
                        edgeY = offsetY (place rootCoord 0 0 QuestionSlot q)
                                + height (boundary (place rootCoord 0 0 QuestionSlot q)) + BranchIntervalY sz,
                        edgeLength = offsetX (last (branchNodes ?st')) + axisX (boundary (last (branchNodes ?st')))
                            - (offsetX (hd (branchNodes ?st')) + axisX (boundary (hd (branchNodes ?st')))),
                        edgeOptions = None\<rparr>]
                 else [])"
    by (simp add: calculateEdges_Right len)
  show "\<exists>pairs rootCoord l st' q'.
            choiceWithBranchNodes sz st = Some pairs
          \<and> length pairs = min (length cs) (length bs)
          \<and> (\<forall>i < length pairs. map fst (members (pairs ! i)) = [ChoiceSlot i, BranchSlot i])
          \<and> branchingRootCoord sz st = Some rootCoord
          \<and> map fst (members rootCoord)
               = QuestionSlot # concat (map (\<lambda>i. [ChoiceSlot i, BranchSlot i]) [0..<min (length cs) (length bs)])
          \<and> questionLayouter sz (Some q) cs bs = Some (l, st')
          \<and> layoutBoundary l = coordBoundary rootCoord
          \<and> st' = moveCoordTo rootCoord 0 0 st
          \<and> mapChoiceNodes (nodeMap l) = Some (choiceNodes st')
          \<and> mapBranchNodes (nodeMap l) = Some (branchNodes st')
          \<and> length (choiceNodes st') = length cs
          \<and> length (branchNodes st') = length bs
          \<and> (\<forall>i < min (length cs) (length bs).
                  sameLayoutInput (cs ! i) (choiceNodes st' ! i)
                \<and> sameLayoutInput (bs ! i) (branchNodes st' ! i)
                \<and> centerX (branchNodes st' ! i) = centerX (choiceNodes st' ! i)
                \<and> offsetY (branchNodes st' ! i)
                     = offsetY (choiceNodes st' ! i) + height (boundary (choiceNodes st' ! i))
                       + ElementIntervalY sz)
          \<and> (\<forall>i < length cs. min (length cs) (length bs) \<le> i \<longrightarrow> choiceNodes st' ! i = cs ! i)
          \<and> questionNode st' = Some q'
          \<and> filter (\<lambda>e. direction e = Right) (edges l)
              = (if length bs > 1
                 then [\<lparr>edgeId = ''edge/'' @ nodeId q @ ''/baseline'',
                        direction = Right,
                        edgeX = offsetX (hd (branchNodes st')) + axisX (boundary (hd (branchNodes st'))),
                        edgeY = offsetY q' + height (boundary q') + BranchIntervalY sz,
                        edgeLength = offsetX (last (branchNodes st')) + axisX (boundary (last (branchNodes st')))
                            - (offsetX (hd (branchNodes st')) + axisX (boundary (hd (branchNodes st')))),
                        edgeOptions = None\<rparr>]
                 else [])"
    apply (rule exI [of _ pairs])
    apply (rule exI [of _ rootCoord])
    apply (rule exI [of _ ?l])
    apply (rule exI [of _ ?st'])
    apply (rule exI [of _ "place rootCoord 0 0 QuestionSlot q"])
    apply (intro conjI)
                   apply (rule p(1))
                  apply (rule p(2))
                 apply (rule p(3))
                apply (rule rc)
               apply (rule sl)
              apply (simp only: ql r)
             apply simp
            apply (rule refl)
           apply simp
          apply simp
         apply (simp add: len)
        apply (simp add: len)
       using att apply blast
      using rest apply blast
     apply (rule q')
    apply (rule right)
    done
qed

text \<open>
  Three choices with three branches, and three choices with one branch: three attachments
  and one baseline, one attachment and no baseline.
\<close>

theorem confirm_attachments_and_baseline_witness:
  "directionCount Right (questionLayouter exampleSizes (Some confirmQuestion) threeChoices threeBranches) = Some 1
   \<and> directionCount Right (questionLayouter exampleSizes (Some confirmQuestion) threeChoices oneBranch) = Some 0
   \<and> map_option length (choiceWithBranchNodes exampleSizes
         \<lparr>questionNode = Some confirmQuestion, choiceNodes = threeChoices, branchNodes = threeBranches\<rparr>) = Some 3
   \<and> map_option length (choiceWithBranchNodes exampleSizes
         \<lparr>questionNode = Some confirmQuestion, choiceNodes = threeChoices, branchNodes = oneBranch\<rparr>) = Some 1
   \<and> (\<exists>l st'. questionLayouter exampleSizes (Some confirmQuestion) threeChoices threeBranches = Some (l, st')
         \<and> map (\<lambda>i. centerX (branchNodes st' ! i)) [0, 1, 2] = map (\<lambda>i. centerX (choiceNodes st' ! i)) [0, 1, 2]
         \<and> map (\<lambda>i. offsetY (branchNodes st' ! i)) [0, 1, 2]
             = map (\<lambda>i. offsetY (choiceNodes st' ! i) + height (boundary (choiceNodes st' ! i)) + 50) [0, 1, 2])
   \<and> (\<exists>l st'. questionLayouter exampleSizes (Some confirmQuestion) threeChoices oneBranch = Some (l, st')
         \<and> centerX (branchNodes st' ! 0) = centerX (choiceNodes st' ! 0)
         \<and> choiceNodes st' ! 1 = threeChoices ! 1
         \<and> choiceNodes st' ! 2 = threeChoices ! 2)"
proof -
  have c: "dataType (data confirmQuestion) = Confirm"
    by (simp add: confirmQuestion_def exampleNode_def)
  have l3: "length threeBranches \<le> length threeChoices" "threeBranches \<noteq> []" "length threeBranches > 1"
    "length threeBranches = 3" "length threeChoices = 3"
    by (simp_all add: threeBranches_def threeChoices_def)
  have l1: "length oneBranch \<le> length threeChoices" "oneBranch \<noteq> []" "\<not> length oneBranch > 1"
    "length oneBranch = 1"
    by (simp_all add: oneBranch_def threeChoices_def)
  have e: "ElementIntervalY exampleSizes = 50"
    by (simp add: exampleSizes_def)
  from confirm_attachments_and_baseline [OF c l3(1), of exampleSizes]
  have A: "directionCount Right (questionLayouter exampleSizes (Some confirmQuestion) threeChoices threeBranches) = Some 1
   \<and> map_option length (choiceWithBranchNodes exampleSizes
         \<lparr>questionNode = Some confirmQuestion, choiceNodes = threeChoices, branchNodes = threeBranches\<rparr>) = Some 3
   \<and> (\<exists>l st'. questionLayouter exampleSizes (Some confirmQuestion) threeChoices threeBranches = Some (l, st')
         \<and> map (\<lambda>i. centerX (branchNodes st' ! i)) [0, 1, 2] = map (\<lambda>i. centerX (choiceNodes st' ! i)) [0, 1, 2]
         \<and> map (\<lambda>i. offsetY (branchNodes st' ! i)) [0, 1, 2]
             = map (\<lambda>i. offsetY (choiceNodes st' ! i) + height (boundary (choiceNodes st' ! i)) + 50) [0, 1, 2])"
    by (auto simp: directionCount_def l3 e)
  from confirm_attachments_and_baseline [OF c l1(1), of exampleSizes]
  have B: "directionCount Right (questionLayouter exampleSizes (Some confirmQuestion) threeChoices oneBranch) = Some 0
   \<and> map_option length (choiceWithBranchNodes exampleSizes
         \<lparr>questionNode = Some confirmQuestion, choiceNodes = threeChoices, branchNodes = oneBranch\<rparr>) = Some 1
   \<and> (\<exists>l st'. questionLayouter exampleSizes (Some confirmQuestion) threeChoices oneBranch = Some (l, st')
         \<and> centerX (branchNodes st' ! 0) = centerX (choiceNodes st' ! 0)
         \<and> choiceNodes st' ! 1 = threeChoices ! 1
         \<and> choiceNodes st' ! 2 = threeChoices ! 2)"
    by (auto simp: directionCount_def l3 l1)
  from A B show ?thesis by blast
qed

subsection \<open>When the layouter has a result\<close>

lemma topAlignWithInterval_total:
  assumes "\<And>e. e \<in> set es \<Longrightarrow> elementBoundary st e \<noteq> None"
  shows "topAlignWithInterval st es i \<noteq> None"
proof -
  obtain bs where "those (map (elementBoundary st) es) = Some bs"
    using those_map_total [of es "elementBoundary st"] assms by auto
  then show ?thesis by (simp add: topAlignWithInterval_def)
qed

lemma newGraphCoord_total:
  "elementBoundary st p \<noteq> None \<Longrightarrow> elementBoundary st d \<noteq> None \<Longrightarrow>
     newGraphCoord st p (d, a, m) \<noteq> None"
  by (auto simp: newGraphCoord_def Let_def)

lemma convergence_total:
  assumes ne: "convergenceMap cs bs \<noteq> []"
    and paired: "\<forall>j < length cs. caseOf (convergenceMap cs bs) j < length bs"
  shows "questionLayouterBranchingWithConvergence sz (Some q) cs bs \<noteq> None"
proof -
  let ?cmap = "convergenceMap cs bs"
  let ?n = "length cs"
  let ?conns = "buildConnections ?cmap ?n"
  let ?reach = "reachableConnections ?conns"
  let ?st = "\<lparr>questionNode = Some q, choiceNodes = cs, branchNodes = markHidden ?conns bs\<rparr>"
  have valid: "(\<forall>j \<in> set js. j < ?n) \<and> js \<noteq> [] \<and> c < length bs"
    if "(c, js) \<in> set ?reach" for c js
  proof -
    from that have js: "js = groupOf ?cmap ?n c" "js \<noteq> []"
      by (auto simp: set_reachable)
    from js(2) obtain j where "j \<in> set js"
      using hd_in_set by blast
    then have "j < ?n" "caseOf ?cmap j = c"
      using js(1) by (simp_all add: set_groupOf)
    with paired have "c < length bs" by auto
    with js show ?thesis by (auto simp: set_groupOf)
  qed
  let ?f = "\<lambda>(caseIdx, choiceIndices).
                   do {
                     choicesGroupCoord \<leftarrow> topAlignWithInterval ?st
                        (map (\<lambda>i. NodeElement (ChoiceSlot i)) choiceIndices) (BranchIntervalX sz);
                     newGraphCoord ?st (CoordElement choicesGroupCoord)
                        (NodeElement (BranchSlot caseIdx), 0, ElementIntervalY sz)
                   }"
  have "?f g \<noteq> None" if g: "g \<in> set ?reach" for g
  proof -
    obtain c js where cj: "g = (c, js)" by (cases g)
    note v = valid [OF g [unfolded cj]]
    have "topAlignWithInterval ?st (map (\<lambda>i. NodeElement (ChoiceSlot i)) js) (BranchIntervalX sz) \<noteq> None"
      using v by (intro topAlignWithInterval_total) auto
    then obtain grp where grp: "topAlignWithInterval ?st (map (\<lambda>i. NodeElement (ChoiceSlot i)) js) (BranchIntervalX sz) = Some grp"
      by auto
    have "newGraphCoord ?st (CoordElement grp) (NodeElement (BranchSlot c), 0, ElementIntervalY sz) \<noteq> None"
      using v by (intro newGraphCoord_total) auto
    then show ?thesis by (simp add: cj grp)
  qed
  from those_map_total [of ?reach ?f, OF this]
  obtain coords where coords: "compositedBranchCoords sz ?st ?reach = Some coords"
    by (auto simp: compositedBranchCoords_def)
  obtain content where content: "convergenceContent sz ?st ?reach = Some content"
    by (simp add: convergenceContent_def coords topAlignWithInterval_coords)
  obtain rootCoord where rootCoord: "convergenceRootCoord sz ?st ?reach = Some rootCoord"
    using newGraphCoord_question [of ?st q content 0 "BranchIntervalY sz * 2"]
    by (auto simp: convergenceRootCoord_def content)
  let ?final = "moveCoordTo rootCoord 0 0 ?st"
  have qn: "questionNode ?final = Some (place rootCoord 0 0 QuestionSlot q)"
    by (simp add: questionNode_moveCoordTo)
  have "0 < ?n" using convergenceMap_nonempty [OF ne] by simp
  then have nonempty: "choiceNodes ?final \<noteq> []"
    by (metis length_greater_0_conv length_moveCoordTo(1) Nodes.select_convs(2))
  have v: "\<forall>(c, js) \<in> set ?reach. (\<forall>j \<in> set js. j < length (choiceNodes ?final)) \<and> js \<noteq> []
              \<and> (length js > 1 \<longrightarrow> c < length (branchNodes ?final))"
    using valid by auto
  have "convergenceEdges sz ?final ?reach \<noteq> None"
    using convergenceEdges_eq [OF qn nonempty v, of sz] by simp
  then have "outcome (questionLayouterBranchingWithConvergence sz (Some q) cs bs) \<noteq> None"
    unfolding convergence_unfold [OF ne] Let_def rootCoord by simp
  then show ?thesis by (auto simp: outcome_def)
qed

text \<open>
  The layouter has a result whenever every choice of a convergence layout has a branch
  node at its case index: then every element it composes and every node its edge loops
  read exists. The plain and the non-branching layouts always have a result. For a choice
  whose case index has no branch node the layouter composes \<^verbatim>\<open>branchNodes[caseIdx]\<close>, which
  is \<^verbatim>\<open>undefined\<close>; what the composition utility makes of it is not determined here.
\<close>

lemma questionLayouter_total:
  assumes "\<And>q. qn = Some q \<Longrightarrow> dataType (data q) = Choice \<Longrightarrow> convergenceMap cs bs \<noteq> [] \<Longrightarrow>
             \<forall>j < length cs. caseOf (convergenceMap cs bs) j < length bs"
  shows "questionLayouter sz qn cs bs \<noteq> None"
proof (cases qn)
  case None
  then show ?thesis by (simp add: questionLayouter_def)
next
  case (Some q0)
  have plain: "questionLayouterBranching sz (Some q0) cs bs \<noteq> None"
  proof (cases "bs = []")
    case True
    then show ?thesis by (simp add: questionLayouterBranching_def)
  next
    case False
    from questionLayouterBranching_result [OF False, of sz q0 cs] show ?thesis by auto
  qed
  consider (choice_plain) "dataType (data q0) = Choice" "convergenceMap cs bs = []"
    | (choice_conv) "dataType (data q0) = Choice" "convergenceMap cs bs \<noteq> []"
    | (confirm) "dataType (data q0) = Confirm"
    | (other) "dataType (data q0) \<noteq> Choice" "dataType (data q0) \<noteq> Confirm"
    by blast
  then show ?thesis
  proof cases
    case choice_plain
    then show ?thesis using plain by (simp add: Some questionLayouter_choice convergence_empty_map)
  next
    case choice_conv
    then show ?thesis
      using convergence_total [OF choice_conv(2) assms [OF Some choice_conv], of sz q0]
      by (simp add: Some questionLayouter_choice)
  next
    case confirm
    then show ?thesis using plain by (simp add: Some questionLayouter_def)
  next
    case other
    then show ?thesis by (cases "dataType (data q0)") (simp_all add: Some questionLayouter_def)
  qed
qed

end
